theory Spec2Isabelle
  imports Main "HOL-Library.Char_ord" "HOL-Library.List_Lexorder"
begin

section \<open>Parsed manifests\<close>

text \<open>
  \<^verbatim>\<open>merge\<close> of \<^verbatim>\<open>merge_packages.py\<close> reads every file, turns it into a tree with
  \<^verbatim>\<open>xmltodict.parse\<close>, folds the trees into four local variables and writes the resulting
  tree with \<^verbatim>\<open>xmltodict.unparse\<close>. Reading, parsing, printing and writing are outside this
  development: the model starts from the parsed trees, in the order of \<^verbatim>\<open>packages\<close>, and
  ends with the tree handed to \<^verbatim>\<open>unparse\<close>.

  A tree of \<^verbatim>\<open>xmltodict\<close> is \<^verbatim>\<open>None\<close> (an empty element), a \<^verbatim>\<open>str\<close> (text), a
  \<^verbatim>\<open>list\<close> (a repeated element) or a \<^verbatim>\<open>dict\<close> with \<^verbatim>\<open>str\<close> keys, kept in insertion
  order. The result of \<^verbatim>\<open>parse\<close> itself is always a \<^verbatim>\<open>dict\<close> (a plain \<^verbatim>\<open>dict\<close>, as
  the test \<^verbatim>\<open>type(mdt_types) == dict\<close> of the source expects). A \<^verbatim>\<open>str\<close> is a
  \<^typ>\<open>string\<close>: code points below 256, compared lexicographically by code point, which
  is the order of Python's \<^verbatim>\<open><\<close> on \<^verbatim>\<open>str\<close>.
\<close>

datatype pyval = VNone | VStr string | VList "pyval list" | VDict "(string \<times> pyval) list"

type_synonym pydict = "(string \<times> pyval) list"

text \<open>
  The exceptions. \<^verbatim>\<open>KeyError\<close> and \<^verbatim>\<open>TypeError\<close> are the two classes the statements of
  \<^verbatim>\<open>merge\<close> raise on trees. \<open>NoValidInputError\<close> is the class the specification names;
  no statement of the source raises it. \<open>Unmodelled\<close> is not a Python exception: it marks
  a version string outside the fragment of \<^verbatim>\<open>float\<close> modelled below.
\<close>

datatype error = KeyError | TypeError | NoValidInputError | Unmodelled

definition bnd :: "error + 'a \<Rightarrow> ('a \<Rightarrow> error + 'b) \<Rightarrow> error + 'b" where
  "bnd m f = (case m of Inl e \<Rightarrow> Inl e | Inr x \<Rightarrow> f x)"

subsection \<open>Subscripts, membership, item assignment\<close>

text \<open>\<^verbatim>\<open>v[k]\<close> with a \<^verbatim>\<open>str\<close> key: only a \<^verbatim>\<open>dict\<close> accepts it.\<close>

definition subscript :: "pyval \<Rightarrow> string \<Rightarrow> error + pyval" where
  "subscript v k =
     (case v of
        VDict kvs \<Rightarrow> (case map_of kvs k of None \<Rightarrow> Inl KeyError | Some x \<Rightarrow> Inr x)
      | _ \<Rightarrow> Inl TypeError)"

fun substring :: "string \<Rightarrow> string \<Rightarrow> bool" where
  "substring k [] = (k = [])"
| "substring k (c # cs) = (take (length k) (c # cs) = k \<or> substring k cs)"

text \<open>
  \<^verbatim>\<open>k in v\<close>: a key of a \<^verbatim>\<open>dict\<close>, a substring of a \<^verbatim>\<open>str\<close>, an element of a
  \<^verbatim>\<open>list\<close>; \<^verbatim>\<open>None\<close> is not iterable.
\<close>

definition contains :: "pyval \<Rightarrow> string \<Rightarrow> error + bool" where
  "contains v k =
     (case v of
        VDict kvs \<Rightarrow> Inr (k \<in> set (map fst kvs))
      | VStr s \<Rightarrow> Inr (substring k s)
      | VList xs \<Rightarrow> Inr (VStr k \<in> set xs)
      | VNone \<Rightarrow> Inl TypeError)"

text \<open>\<^verbatim>\<open>d[k] = v\<close> on a \<^verbatim>\<open>dict\<close>: an existing key keeps its place, a new one goes last.\<close>

fun dict_set :: "('k \<times> 'v) list \<Rightarrow> 'k \<Rightarrow> 'v \<Rightarrow> ('k \<times> 'v) list" where
  "dict_set [] k v = [(k, v)]"
| "dict_set ((k', v') # kvs) k v =
     (if k' = k then (k, v) # kvs else (k', v') # dict_set kvs k v)"

definition setitem :: "pyval \<Rightarrow> string \<Rightarrow> pyval \<Rightarrow> error + pyval" where
  "setitem d k v =
     (case d of VDict kvs \<Rightarrow> Inr (VDict (dict_set kvs k v)) | _ \<Rightarrow> Inl TypeError)"

subsection \<open>Sorting and joining\<close>

fun the_strs :: "pyval list \<Rightarrow> string list option" where
  "the_strs [] = Some []"
| "the_strs (VStr s # xs) = (case the_strs xs of None \<Rightarrow> None | Some ss \<Rightarrow> Some (s # ss))"
| "the_strs (_ # xs) = None"

text \<open>
  \<^verbatim>\<open>xs.sort()\<close>. A list of \<^verbatim>\<open>str\<close> is sorted by code point. A list of at most one
  element is left as it is, with no comparison. Otherwise some element that is not a
  \<^verbatim>\<open>str\<close> is compared: with \<^verbatim>\<open>None\<close>, a \<^verbatim>\<open>dict\<close> or a \<^verbatim>\<open>str\<close> on the other side
  this raises \<^verbatim>\<open>TypeError\<close>. (Two \<^verbatim>\<open>list\<close>s may compare; the only list that can hold
  them is \<^verbatim>\<open>package_names\<close>, whose \<^verbatim>\<open>join\<close> then raises \<^verbatim>\<open>TypeError\<close> in any case,
  with no statement in between that raises another class.)
\<close>

definition py_sort :: "pyval list \<Rightarrow> error + pyval list" where
  "py_sort xs =
     (case the_strs xs of
        Some ss \<Rightarrow> Inr (map VStr (sort ss))
      | None \<Rightarrow> if length xs \<le> 1 then Inr xs else Inl TypeError)"

fun join :: "string \<Rightarrow> string list \<Rightarrow> string" where
  "join sep [] = []"
| "join sep [s] = s"
| "join sep (s # t # ss) = s @ sep @ join sep (t # ss)"

text \<open>\<^verbatim>\<open>sep.join(xs)\<close> raises \<^verbatim>\<open>TypeError\<close> on an item that is not a \<^verbatim>\<open>str\<close>.\<close>

definition py_join :: "string \<Rightarrow> pyval list \<Rightarrow> error + string" where
  "py_join sep xs = (case the_strs xs of Some ss \<Rightarrow> Inr (join sep ss) | None \<Rightarrow> Inl TypeError)"

subsection \<open>Version numbers\<close>

text \<open>
  \<^verbatim>\<open>float(s)\<close> is modelled on the strings \<^verbatim>\<open>-?[0-9]{1,14}(\.[0-9])?\<close>, which hold the
  version numbers of manifests (\<^verbatim>\<open>58.0\<close>, \<^verbatim>\<open>59\<close>). On these the double nearest to the
  decimal is compared, tested against zero and printed by \<^verbatim>\<open>.1f\<close> exactly as the decimal
  itself (its distance to the decimal is below \<open>2 ^ -7\<close>), so a float is a sign and a
  number of tenths; the sign is kept at zero, as \<^verbatim>\<open>-0.0\<close> prints its sign. Every other
  string is \<open>Unmodelled\<close>, whether \<^verbatim>\<open>float\<close> accepts it or raises \<^verbatim>\<open>ValueError\<close>.
\<close>

datatype pyfloat = PyFloat (negative: bool) (tenths: nat)

definition is_digit :: "char \<Rightarrow> bool" where
  "is_digit c = (c \<in> set ''0123456789'')"

definition digit_val :: "char \<Rightarrow> nat" where
  "digit_val c = of_char c - 48"

definition digit_char :: "nat \<Rightarrow> char" where
  "digit_char n = char_of (48 + n)"

definition nat_of_digits :: "string \<Rightarrow> nat" where
  "nat_of_digits ds = foldl (\<lambda>n c. 10 * n + digit_val c) 0 ds"

fun digits_of :: "nat \<Rightarrow> string" where
  "digits_of n = (if n < 10 then [digit_char n] else digits_of (n div 10) @ [digit_char (n mod 10)])"

declare digits_of.simps [simp del]

definition float_of_str :: "string \<Rightarrow> error + pyfloat" where
  "float_of_str s =
     (let neg = (take 1 s = ''-'');
          body = (if neg then drop 1 s else s);
          ip = takeWhile is_digit body;
          fp = dropWhile is_digit body
      in if ip = [] \<or> 14 < length ip then Inl Unmodelled
         else if fp = [] then Inr (PyFloat neg (10 * nat_of_digits ip))
         else if length fp = 2 \<and> hd fp = CHR ''.'' \<and> is_digit (last fp)
           then Inr (PyFloat neg (10 * nat_of_digits ip + digit_val (last fp)))
         else Inl Unmodelled)"

text \<open>\<^verbatim>\<open>float(v)\<close>: \<^verbatim>\<open>None\<close>, a \<^verbatim>\<open>dict\<close> and a \<^verbatim>\<open>list\<close> raise \<^verbatim>\<open>TypeError\<close>.\<close>

definition py_float :: "pyval \<Rightarrow> error + pyfloat" where
  "py_float v = (case v of VStr s \<Rightarrow> float_of_str s | _ \<Rightarrow> Inl TypeError)"

definition float_val :: "pyfloat \<Rightarrow> int" where
  "float_val x = (if negative x then - int (tenths x) else int (tenths x))"

text \<open>\<^verbatim>\<open>max(a, b)\<close> keeps \<^verbatim>\<open>a\<close> unless \<^verbatim>\<open>b > a\<close>.\<close>

definition py_max :: "pyfloat \<Rightarrow> pyfloat \<Rightarrow> pyfloat" where
  "py_max a b = (if float_val a < float_val b then b else a)"

text \<open>\<^verbatim>\<open>not max_version\<close>: true of \<^verbatim>\<open>None\<close> and of a zero.\<close>

definition falsy :: "pyfloat option \<Rightarrow> bool" where
  "falsy m = (case m of None \<Rightarrow> True | Some x \<Rightarrow> tenths x = 0)"

text \<open>\<^verbatim>\<open>f'{x:.1f}'\<close>\<close>

definition format_1f :: "pyfloat \<Rightarrow> string" where
  "format_1f x =
     (if negative x then ''-'' else []) @ digits_of (tenths x div 10) @ ''.''
       @ [digit_char (tenths x mod 10)]"

section \<open>The merge\<close>

text \<open>
  The four local variables of \<^verbatim>\<open>merge\<close>. \<open>types_dict\<close> maps a type name to a \<^verbatim>\<open>set\<close>;
  a set is a list without repetition (the order in which Python iterates a set is not
  fixed, and the source sorts every set before it is used).
\<close>

type_synonym tdict = "(pyval \<times> pyval list) list"

record agg =
  types_dict :: tdict
  package_names :: "pyval list"
  max_version :: "pyfloat option"
  template :: "pydict option"

definition init :: agg where
  "init = \<lparr>types_dict = [], package_names = [], max_version = None, template = None\<rparr>"

text \<open>
  Lines 98 to 100, the condition under which a file is announced as skipped:
  \<^verbatim>\<open>'Package' not in package_dict or 'version' not in package_dict['Package'] or
  'types' not in package_dict['Package']\<close>, with the short circuit of \<^verbatim>\<open>or\<close>.
\<close>

definition not_valid :: "pydict \<Rightarrow> error + bool" where
  "not_valid package_dict =
     bnd (contains (VDict package_dict) ''Package'') (\<lambda>has_root.
       if \<not> has_root then Inr True
       else bnd (subscript (VDict package_dict) ''Package'') (\<lambda>package.
            bnd (contains package ''version'') (\<lambda>has_version.
              if \<not> has_version then Inr True
              else bnd (contains package ''types'') (\<lambda>has_types. Inr (\<not> has_types)))))"

text \<open>Only \<^verbatim>\<open>None\<close> and \<^verbatim>\<open>str\<close> can be hashed, as a key or as a set element.\<close>

definition hashable :: "pyval \<Rightarrow> bool" where
  "hashable v = (case v of VNone \<Rightarrow> True | VStr _ \<Rightarrow> True | _ \<Rightarrow> False)"

text \<open>
  Lines 125 to 130: a \<^verbatim>\<open>dict\<close> is put in a list, and the \<^verbatim>\<open>for\<close> iterates what it is
  given: a \<^verbatim>\<open>str\<close> gives its characters, \<^verbatim>\<open>None\<close> is not iterable.
\<close>

definition mdt_types_of :: "pyval \<Rightarrow> error + pyval list" where
  "mdt_types_of t =
     (case t of
        VDict r \<Rightarrow> Inr [VDict r]
      | VList rs \<Rightarrow> Inr rs
      | VStr s \<Rightarrow> Inr (map (\<lambda>c. VStr [c]) s)
      | VNone \<Rightarrow> Inl TypeError)"

text \<open>
  Lines 134 to 138: a \<^verbatim>\<open>str\<close> is put in a list, and \<^verbatim>\<open>set.update\<close> iterates what it
  is given: a \<^verbatim>\<open>dict\<close> gives its keys, \<^verbatim>\<open>None\<close> is not iterable.
\<close>

definition members_of :: "pyval \<Rightarrow> error + pyval list" where
  "members_of m =
     (case m of
        VStr s \<Rightarrow> Inr [VStr s]
      | VList xs \<Rightarrow> Inr xs
      | VDict kvs \<Rightarrow> Inr (map (\<lambda>kv. VStr (fst kv)) kvs)
      | VNone \<Rightarrow> Inl TypeError)"

definition set_add :: "pyval \<Rightarrow> pyval list \<Rightarrow> pyval list" where
  "set_add x s = (if x \<in> set s then s else s @ [x])"

definition set_update :: "pyval list \<Rightarrow> pyval list \<Rightarrow> error + pyval list" where
  "set_update s xs = (if list_all hashable xs then Inr (fold set_add xs s) else Inl TypeError)"

text \<open>Lines 131 to 138, the body of the loop over the type records of one file.\<close>

definition add_type :: "pyval \<Rightarrow> tdict \<Rightarrow> error + tdict" where
  "add_type mdt_type td =
     bnd (subscript mdt_type ''name'') (\<lambda>name.
       if \<not> hashable name then Inl TypeError
       else let td1 = (if name \<in> set (map fst td) then td else dict_set td name []) in
         bnd (subscript mdt_type ''members'') (\<lambda>members.
         bnd (members_of members) (\<lambda>ms.
           case map_of td1 name of
             None \<Rightarrow> Inl KeyError
           | Some s \<Rightarrow> bnd (set_update s ms) (\<lambda>s'. Inr (dict_set td1 name s')))))"

fun add_types :: "pyval list \<Rightarrow> tdict \<Rightarrow> error + tdict" where
  "add_types [] td = Inr td"
| "add_types (r # rs) td = bnd (add_type r td) (add_types rs)"

text \<open>Lines 107 to 138, the body of the loop over the files once the file is accepted.\<close>

definition process :: "pydict \<Rightarrow> agg \<Rightarrow> error + agg" where
  "process package_dict st =
     bnd (subscript (VDict package_dict) ''Package'') (\<lambda>package.
     bnd (subscript package ''fullName'') (\<lambda>full_name.
     bnd (subscript package ''version'') (\<lambda>version.
     bnd (py_float version) (\<lambda>v.
     bnd (subscript package ''types'') (\<lambda>mdt_types.
     bnd (mdt_types_of mdt_types) (\<lambda>recs.
     bnd (add_types recs (types_dict st)) (\<lambda>td.
       Inr \<lparr>types_dict = td,
            package_names = package_names st @ [full_name],
            max_version =
              Some (py_max (case max_version st of
                              None \<Rightarrow> v
                            | Some m \<Rightarrow> if falsy (Some m) then v else m) v),
            template =
              (case template st of
                 None \<Rightarrow> Some package_dict
               | Some t \<Rightarrow> if t = [] then Some package_dict else Some t)\<rparr>)))))))"

text \<open>
  Lines 91 to 138. The announced skip is a \<^verbatim>\<open>break\<close> (line 105): the loop ends at the
  first file whose condition holds.
\<close>

fun merge_loop :: "pydict list \<Rightarrow> agg \<Rightarrow> error + agg" where
  "merge_loop [] st = Inr st"
| "merge_loop (package_dict # rest) st =
     bnd (not_valid package_dict) (\<lambda>skip.
       if skip then Inr st
       else bnd (process package_dict st) (merge_loop rest))"

definition header :: string where
  "header = ''This package.xml was created by merging the following packages:'' @ [CHR 0x0A]"

text \<open>Lines 160 to 163, the record appended for one type.\<close>

definition type_record :: "pyval \<Rightarrow> pyval list \<Rightarrow> pyval" where
  "type_record mdt_name members = VDict [(''members'', VList members), (''name'', mdt_name)]"

text \<open>Lines 156 to 164.\<close>

fun render :: "pyval list \<Rightarrow> tdict \<Rightarrow> error + pyval list" where
  "render [] td = Inr []"
| "render (mdt_name # names) td =
     (case map_of td mdt_name of
        None \<Rightarrow> Inl KeyError
      | Some s \<Rightarrow>
          bnd (py_sort s) (\<lambda>members.
          bnd (render names td) (\<lambda>rest.
            Inr (type_record mdt_name members # rest))))"

text \<open>
  Lines 140 to 164. \<^verbatim>\<open>template\<close> is \<^verbatim>\<open>None\<close> when no file was accepted, and
  \<^verbatim>\<open>None['Package']\<close> raises \<^verbatim>\<open>TypeError\<close>; so does \<^verbatim>\<open>.1f\<close> on \<^verbatim>\<open>None\<close>.
  \<^verbatim>\<open>template['Package']\<close> is one object, changed in place; the records appended to
  its \<^verbatim>\<open>types\<close> list one by one are stored here as the finished list.
\<close>

definition finalize :: "agg \<Rightarrow> error + pydict" where
  "finalize st =
     bnd (py_sort (package_names st)) (\<lambda>names.
       case template st of
         None \<Rightarrow> Inl TypeError
       | Some t \<Rightarrow>
           bnd (subscript (VDict t) ''Package'') (\<lambda>p0.
           bnd (setitem p0 ''fullName'' (VStr ''Merged_Package'')) (\<lambda>p1.
           bnd (py_join [CHR 0x0A] names) (\<lambda>joined.
           bnd (setitem p1 ''description'' (VStr (header @ joined))) (\<lambda>p2.
           bnd (case max_version st of None \<Rightarrow> Inl TypeError | Some x \<Rightarrow> Inr (format_1f x)) (\<lambda>vs.
           bnd (setitem p2 ''version'' (VStr vs)) (\<lambda>p3.
           bnd (setitem p3 ''types'' (VList [])) (\<lambda>p4.
           bnd (py_sort (map fst (types_dict st))) (\<lambda>ordered_names.
           bnd (render ordered_names (types_dict st)) (\<lambda>recs.
           bnd (setitem p4 ''types'' (VList recs)) (\<lambda>p5.
             Inr (dict_set t ''Package'' p5))))))))))))"

definition merge :: "pydict list \<Rightarrow> error + pydict" where
  "merge packages = bnd (merge_loop packages init) finalize"


section \<open>Reading a manifest\<close>

text \<open>\<^verbatim>\<open>package_dict['Package'][k]\<close>, as lines 110, 114 and 125 read a manifest.\<close>

definition field :: "string \<Rightarrow> pydict \<Rightarrow> error + pyval" where
  "field k package_dict = bnd (subscript (VDict package_dict) ''Package'') (\<lambda>package. subscript package k)"

text \<open>The manifests the loop works on: those before the first one that ends it.\<close>

definition processed :: "pydict list \<Rightarrow> pydict list" where
  "processed packages = takeWhile (\<lambda>d. not_valid d = Inr False) packages"

text \<open>
  The root record of the result, from the root record \<open>p0\<close> of the template, the names
  \<open>ss\<close> of the merged manifests, the maximum \<open>x\<close> and the type records \<open>recs\<close>:
  the five assignments of lines 142 to 164, in their order.
\<close>

definition final_package :: "pydict \<Rightarrow> string list \<Rightarrow> pyfloat \<Rightarrow> pyval list \<Rightarrow> pydict" where
  "final_package p0 ss x recs =
     dict_set (dict_set (dict_set (dict_set (dict_set p0
       ''fullName'' (VStr ''Merged_Package''))
       ''description'' (VStr (header @ join [CHR 0x0A] (sort ss))))
       ''version'' (VStr (format_1f x)))
       ''types'' (VList []))
       ''types'' (VList recs)"

text \<open>Python's \<^verbatim>\<open><\<close> where the source uses it: between two \<^verbatim>\<open>str\<close>, by code point.\<close>

definition py_lt :: "pyval \<Rightarrow> pyval \<Rightarrow> bool" where
  "py_lt a b = (case a of VStr s \<Rightarrow> (case b of VStr t \<Rightarrow> s < t | _ \<Rightarrow> False) | _ \<Rightarrow> False)"

text \<open>
  What one type record with a name \<open>n\<close> and members \<open>ms\<close> does to \<open>types_dict\<close>,
  in one step, and the two properties the loop keeps: the keys are distinct and hashable,
  every set is without repetition and holds hashable values only.
\<close>

definition tdict_add :: "pyval \<Rightarrow> pyval list \<Rightarrow> tdict \<Rightarrow> tdict" where
  "tdict_add n ms td =
     dict_set td n (fold set_add ms (case map_of td n of None \<Rightarrow> [] | Some s \<Rightarrow> s))"

definition td_ok :: "tdict \<Rightarrow> bool" where
  "td_ok td \<longleftrightarrow>
     distinct (map fst td) \<and> list_all hashable (map fst td) \<and>
     list_all (\<lambda>s. distinct s \<and> list_all hashable s) (map snd td)"

definition td_members :: "tdict \<Rightarrow> pyval \<Rightarrow> pyval set" where
  "td_members td T = (case map_of td T of None \<Rightarrow> {} | Some s \<Rightarrow> set s)"

section \<open>The normal form of a manifest\<close>

text \<open>
  The specification's words for the two loose shapes: a single type record (not a
  sequence) is wrapped into a one-element sequence, a bare member string likewise; every
  other value passes through.
\<close>

definition normalizeTypes :: "pyval \<Rightarrow> pyval" where
  "normalizeTypes raw = (case raw of VDict r \<Rightarrow> VList [VDict r] | _ \<Rightarrow> raw)"

definition normalizeMembers :: "pyval \<Rightarrow> pyval" where
  "normalizeMembers raw = (case raw of VStr s \<Rightarrow> VList [VStr s] | _ \<Rightarrow> raw)"

text \<open>
  The normal form of a type record, of a \<open>types\<close> field and of a manifest: the types
  in sequence form, and in every type record that has a \<open>members\<close> field the members in
  sequence form. A manifest without a root record or without a \<open>types\<close> field is its
  own normal form.
\<close>

definition normalize_record :: "pyval \<Rightarrow> pyval" where
  "normalize_record r =
     (case r of
        VDict kvs \<Rightarrow>
          (case map_of kvs ''members'' of
             Some m \<Rightarrow> VDict (dict_set kvs ''members'' (normalizeMembers m))
           | None \<Rightarrow> r)
      | _ \<Rightarrow> r)"

definition normalize_types :: "pyval \<Rightarrow> pyval" where
  "normalize_types raw =
     (case normalizeTypes raw of VList rs \<Rightarrow> VList (map normalize_record rs) | other \<Rightarrow> other)"

definition normalize_doc :: "pydict \<Rightarrow> pydict" where
  "normalize_doc d =
     (case map_of d ''Package'' of
        Some (VDict p) \<Rightarrow>
          (case map_of p ''types'' of
             Some t \<Rightarrow> dict_set d ''Package'' (VDict (dict_set p ''types'' (normalize_types t)))
           | None \<Rightarrow> d)
      | _ \<Rightarrow> d)"

text \<open>
  Two states of the loop that differ at most in that the template of the first is the
  normal form of the template of the second.
\<close>

definition agg_rel :: "agg \<Rightarrow> agg \<Rightarrow> bool" where
  "agg_rel st' st \<longleftrightarrow>
     types_dict st' = types_dict st \<and> package_names st' = package_names st \<and>
     max_version st' = max_version st \<and>
     rel_option (\<lambda>t' t. t' = t \<or> t' = normalize_doc t) (template st') (template st)"

section \<open>Merging a result again\<close>

text \<open>\<^verbatim>\<open>d['Package']['description'] = s\<close> on a document \<open>d\<close>.\<close>

definition with_description :: "string \<Rightarrow> pydict \<Rightarrow> error + pydict" where
  "with_description s d =
     bnd (subscript (VDict d) ''Package'') (\<lambda>p.
     bnd (setitem p ''description'' (VStr s)) (\<lambda>p'.
       Inr (dict_set d ''Package'' p')))"

text \<open>
  The versions that the modelled fragment of \<^verbatim>\<open>float\<close> yields are below \<open>10 ^ 14\<close>,
  that is, they have fewer than \<open>10 ^ 15\<close> tenths.
\<close>

definition version_ok :: "pyfloat option \<Rightarrow> bool" where
  "version_ok m = (case m of None \<Rightarrow> True | Some x \<Rightarrow> tenths x < 10 ^ 15)"

text \<open>A greatest element of a list of versions, and a version above zero.\<close>

definition is_max :: "pyfloat \<Rightarrow> pyfloat list \<Rightarrow> bool" where
  "is_max m vs \<longleftrightarrow> m \<in> set vs \<and> list_all (\<lambda>w. float_val w \<le> float_val m) vs"

definition positive :: "pyfloat \<Rightarrow> bool" where
  "positive v \<longleftrightarrow> \<not> negative v \<and> 0 < tenths v"

text \<open>
  The type names a manifest contributes, and the members it contributes to a type \<open>T\<close>,
  as the loop reads them.
\<close>

definition names_in :: "pydict \<Rightarrow> pyval set" where
  "names_in d =
     {T. \<exists>recs r. bnd (field ''types'' d) mdt_types_of = Inr recs \<and> r \<in> set recs \<and>
        subscript r ''name'' = Inr T}"

definition members_in :: "pydict \<Rightarrow> pyval \<Rightarrow> pyval set" where
  "members_in d T =
     {m. \<exists>recs r ms. bnd (field ''types'' d) mdt_types_of = Inr recs \<and> r \<in> set recs \<and>
        subscript r ''name'' = Inr T \<and> bnd (subscript r ''members'') members_of = Inr ms \<and>
        m \<in> set ms}"

section \<open>Example manifests\<close>

definition manifest_a :: pydict where
  "manifest_a =
     [(''Package'', VDict
        [(''@xmlns'', VStr ''http://soap.sforce.com/2006/04/metadata''),
         (''fullName'', VStr ''A''),
         (''types'', VDict [(''members'', VStr ''Foo''), (''name'', VStr ''ApexClass'')]),
         (''version'', VStr ''58.0'')])]"

definition manifest_no_version :: pydict where
  "manifest_no_version =
     [(''Package'', VDict
        [(''fullName'', VStr ''B''),
         (''types'', VDict [(''members'', VStr ''Zed''), (''name'', VStr ''Report'')])])]"

definition manifest_empty_root :: pydict where
  "manifest_empty_root = [(''Package'', VNone)]"

definition manifest_c :: pydict where
  "manifest_c =
     [(''Package'', VDict
        [(''fullName'', VStr ''C''),
         (''types'', VList
            [VDict [(''members'', VList [VStr ''Bar'', VStr ''Foo'']), (''name'', VStr ''ApexClass'')],
             VDict [(''members'', VStr ''X''), (''name'', VStr ''Layout'')]]),
         (''version'', VStr ''59.0'')])]"

definition manifest_zero :: pydict where
  "manifest_zero =
     [(''Package'', VDict
        [(''fullName'', VStr ''Z''),
         (''types'', VDict [(''members'', VStr ''Foo''), (''name'', VStr ''ApexClass'')]),
         (''version'', VStr ''0.0'')])]"

definition manifest_minus :: pydict where
  "manifest_minus =
     [(''Package'', VDict
        [(''fullName'', VStr ''M''),
         (''types'', VDict [(''members'', VStr ''Bar''), (''name'', VStr ''ApexClass'')]),
         (''version'', VStr ''-1.0'')])]"

definition manifest_no_name :: pydict where
  "manifest_no_name =
     [(''Package'', VDict
        [(''types'', VDict [(''members'', VStr ''Foo''), (''name'', VStr ''ApexClass'')]),
         (''version'', VStr ''58.0'')])]"

text \<open>The result of merging \<open>manifest_a\<close> alone.\<close>

definition merged_a :: pydict where
  "merged_a =
     [(''Package'', VDict
        [(''@xmlns'', VStr ''http://soap.sforce.com/2006/04/metadata''),
         (''fullName'', VStr ''Merged_Package''),
         (''types'', VList [VDict [(''members'', VList [VStr ''Foo'']), (''name'', VStr ''ApexClass'')]]),
         (''version'', VStr ''58.0''),
         (''description'', VStr (header @ ''A''))])]"

section \<open>Facts about the model\<close>

subsection \<open>Errors and lookups\<close>

lemma bnd_Inl [simp]: "bnd (Inl e) f = Inl e"
  by (simp add: bnd_def)

lemma bnd_Inr [simp]: "bnd (Inr x) f = f x"
  by (simp add: bnd_def)

lemma bnd_eq_Inr: "bnd m f = Inr y \<longleftrightarrow> (\<exists>x. m = Inr x \<and> f x = Inr y)"
  by (cases m) simp_all

lemma bnd_eq_Inl: "bnd m f = Inl e \<longleftrightarrow> m = Inl e \<or> (\<exists>x. m = Inr x \<and> f x = Inl e)"
  by (cases m) simp_all

lemma contains_error: "contains v k = Inl e \<Longrightarrow> e = TypeError"
  by (cases v) (simp_all add: contains_def)

lemma contains_dict_subscript:
  "contains (VDict kvs) k = Inr True \<Longrightarrow> \<exists>x. subscript (VDict kvs) k = Inr x"
  by (auto simp: contains_def subscript_def map_of_eq_None_iff split: option.splits)

lemma not_valid_error: "not_valid d = Inl e \<Longrightarrow> e = TypeError"
  unfolding not_valid_def
  by (auto simp: bnd_eq_Inl split: if_splits dest: contains_error contains_dict_subscript)

lemma finalize_init: "finalize init = Inl TypeError"
  by (simp add: finalize_def init_def py_sort_def)

lemma map_VStr_eq [simp]: "map VStr xs = map VStr ys \<longleftrightarrow> xs = ys"
  by (rule inj_map_eq_map) (simp add: inj_on_def)

lemma the_strs_map [simp]: "the_strs (map VStr ss) = Some ss"
  by (induction ss) simp_all

lemma the_strs_SomeD: "the_strs xs = Some ss \<Longrightarrow> xs = map VStr ss"
  by (induction xs arbitrary: ss rule: the_strs.induct) (auto split: option.splits)

lemma the_strs_Some_iff: "the_strs xs = Some ss \<longleftrightarrow> xs = map VStr ss"
  by (auto dest: the_strs_SomeD)

lemma map_of_dict_set: "map_of (dict_set kvs k v) k' = (if k' = k then Some v else map_of kvs k')"
  by (induction kvs) auto

lemma subscript_dict_Inr: "subscript (VDict kvs) k = Inr x \<longleftrightarrow> map_of kvs k = Some x"
  by (simp add: subscript_def split: option.splits)

lemma subscript_Inr_dict: "subscript v k = Inr x \<Longrightarrow> \<exists>kvs. v = VDict kvs \<and> map_of kvs k = Some x"
  by (cases v) (simp_all add: subscript_def split: option.splits)

lemma setitem_Inr: "setitem d k v = Inr d' \<longleftrightarrow> (\<exists>kvs. d = VDict kvs \<and> d' = VDict (dict_set kvs k v))"
  by (cases d) (auto simp: setitem_def)

lemma setitem_dict [simp]: "setitem (VDict kvs) k v = Inr (VDict (dict_set kvs k v))"
  by (simp add: setitem_def)

lemma py_sort_strs [simp]: "py_sort (map VStr ss) = Inr (map VStr (sort ss))"
  by (simp add: py_sort_def)

lemma py_join_Inr: "py_join sep xs = Inr j \<longleftrightarrow> (\<exists>ss. xs = map VStr ss \<and> j = join sep ss)"
  by (auto simp: py_join_def the_strs_Some_iff split: option.splits)

lemma py_sort_then_strs:
  assumes "py_sort xs = Inr ys" "ys = map VStr ts"
  shows "\<exists>ss. xs = map VStr ss \<and> ts = sort ss"
proof (cases "the_strs xs")
  case None
  with assms have "ys = xs" by (auto simp: py_sort_def split: if_splits)
  with assms None show ?thesis by (simp add: the_strs_Some_iff[symmetric])
next
  case (Some ss)
  with assms have "map VStr ts = map VStr (sort ss)" by (simp add: py_sort_def)
  then have "ts = sort ss" by simp
  with Some show ?thesis by (auto simp: the_strs_Some_iff)
qed

lemma finalize_Inr:
  assumes "finalize st = Inr out"
  shows "\<exists>t p0 ss x names recs.
           template st = Some t \<and> map_of t ''Package'' = Some (VDict p0) \<and>
           package_names st = map VStr ss \<and> max_version st = Some x \<and>
           py_sort (map fst (types_dict st)) = Inr names \<and>
           render names (types_dict st) = Inr recs \<and>
           out = dict_set t ''Package'' (VDict (final_package p0 ss x recs))"
proof -
  from assms obtain names where n: "py_sort (package_names st) = Inr names"
    by (auto simp: finalize_def bnd_eq_Inr)
  from assms n obtain t where t: "template st = Some t"
    by (auto simp: finalize_def split: option.splits)
  from assms n t obtain v0 where v0: "subscript (VDict t) ''Package'' = Inr v0"
    by (auto simp: finalize_def bnd_eq_Inr)
  from assms n t v0 obtain p0 where p0: "v0 = VDict p0"
    by (auto simp: finalize_def bnd_eq_Inr setitem_Inr)
  from assms n t v0 p0 obtain ts where ts: "names = map VStr ts"
    by (auto simp: finalize_def bnd_eq_Inr py_join_Inr)
  from py_sort_then_strs [OF n ts] obtain ss where ss: "package_names st = map VStr ss" "ts = sort ss"
    by blast
  from assms n t v0 p0 ts obtain x where x: "max_version st = Some x"
    by (auto simp: finalize_def bnd_eq_Inr py_join_def split: option.splits)
  from assms n t v0 p0 ts ss x obtain onames recs where
    r: "py_sort (map fst (types_dict st)) = Inr onames" "render onames (types_dict st) = Inr recs"
     "out = dict_set t ''Package'' (VDict (final_package p0 ss x recs))"
    by (auto simp: finalize_def bnd_eq_Inr py_join_def final_package_def)
  from t v0 p0 ss x r show ?thesis by (auto simp: subscript_dict_Inr)
qed

lemma field_dict_set:
  "field k (dict_set t ''Package'' (VDict p)) = subscript (VDict p) k"
  by (simp add: field_def subscript_def map_of_dict_set)

lemma process_names:
  "process d st = Inr st' \<Longrightarrow> \<exists>n. field ''fullName'' d = Inr n \<and> package_names st' = package_names st @ [n]"
  by (auto simp: process_def field_def bnd_eq_Inr)

lemma merge_loop_names:
  assumes "\<forall>d\<in>set ds. not_valid d = Inr False" "merge_loop ds st = Inr st'"
  shows "\<exists>ns. map (field ''fullName'') ds = map Inr ns \<and> package_names st' = package_names st @ ns"
  using assms
proof (induction ds arbitrary: st)
  case Nil
  then show ?case by simp
next
  case (Cons d ds)
  from Cons.prems obtain st1 where p: "process d st = Inr st1" and l: "merge_loop ds st1 = Inr st'"
    by (auto simp: bnd_eq_Inr)
  from process_names [OF p] obtain n where n: "field ''fullName'' d = Inr n" "package_names st1 = package_names st @ [n]"
    by blast
  from Cons.IH [OF _ l] Cons.prems obtain ns where
    "map (field ''fullName'') ds = map Inr ns" "package_names st' = package_names st1 @ ns" by auto
  with n have "map (field ''fullName'') (d # ds) = map Inr (n # ns) \<and> package_names st' = package_names st @ (n # ns)"
    by simp
  then show ?case by blast
qed

subsection \<open>Dictionaries\<close>

lemma dict_set_keys:
  "map fst (dict_set kvs k v) = (if k \<in> set (map fst kvs) then map fst kvs else map fst kvs @ [k])"
  by (induction kvs) force+

lemma dict_set_has_key [simp]: "k \<in> fst ` set (dict_set kvs k v)"
  by (induction kvs) force+

lemma key_lookup: "k \<in> fst ` set kvs \<Longrightarrow> \<exists>v. map_of kvs k = Some v"
  by (cases "map_of kvs k") (auto simp: map_of_eq_None_iff)

lemma dict_set_twice [simp]: "dict_set (dict_set kvs k v) k w = dict_set kvs k w"
  by (induction kvs) auto

lemma dict_set_same: "map_of kvs k = Some v \<Longrightarrow> dict_set kvs k v = kvs"
  by (induction kvs) (auto split: if_splits)

lemma dict_set_new: "k \<notin> set (map fst kvs) \<Longrightarrow> dict_set kvs k v = kvs @ [(k, v)]"
  by (induction kvs) auto

lemma dict_set_values: "set (map snd (dict_set kvs k v)) \<subseteq> insert v (set (map snd kvs))"
  by (induction kvs) (force split: if_splits)+

lemma map_of_in_values: "map_of kvs k = Some v \<Longrightarrow> v \<in> set (map snd kvs)"
  by (induction kvs) (auto split: if_splits)

subsection \<open>Sets\<close>

lemma set_fold_set_add [simp]: "set (fold set_add ms s) = set s \<union> set ms"
  by (induction ms arbitrary: s) (auto simp: set_add_def)

lemma distinct_fold_set_add: "distinct s \<Longrightarrow> distinct (fold set_add ms s)"
  by (induction ms arbitrary: s) (auto simp: set_add_def)

lemma fold_set_add_distinct: "distinct (s @ ms) \<Longrightarrow> fold set_add ms s = s @ ms"
  by (induction ms arbitrary: s) (auto simp: set_add_def)

lemma set_update_Inr:
  "set_update s ms = Inr s' \<longleftrightarrow> list_all hashable ms \<and> s' = fold set_add ms s"
  by (auto simp: set_update_def)

subsection \<open>One type record\<close>

lemma add_type_eq:
  "add_type r td =
     bnd (subscript r ''name'') (\<lambda>n.
       if \<not> hashable n then Inl TypeError
       else bnd (subscript r ''members'') (\<lambda>m.
            bnd (members_of m) (\<lambda>ms.
              if list_all hashable ms then Inr (tdict_add n ms td) else Inl TypeError)))"
proof -
  have aux: "(case map_of (if n \<in> set (map fst td) then td else dict_set td n []) n of
           None \<Rightarrow> Inl KeyError
         | Some s \<Rightarrow> bnd (set_update s ms)
             (\<lambda>s'. Inr (dict_set (if n \<in> set (map fst td) then td else dict_set td n []) n s')))
        = (if list_all hashable ms then Inr (tdict_add n ms td) else Inl TypeError)" for n ms
  proof (cases "n \<in> fst ` set td")
    case True
    from key_lookup [OF this] obtain s where "map_of td n = Some s" ..
    with True show ?thesis by (simp add: set_update_def tdict_add_def)
  next
    case False
    then have "map_of td n = None" by (simp add: map_of_eq_None_iff)
    with False show ?thesis by (simp add: set_update_def tdict_add_def map_of_dict_set)
  qed
  show ?thesis unfolding add_type_def Let_def aux by (rule refl)
qed

lemma add_type_Inr:
  "add_type r td = Inr td' \<longleftrightarrow>
     (\<exists>n m ms. subscript r ''name'' = Inr n \<and> hashable n \<and> subscript r ''members'' = Inr m \<and>
        members_of m = Inr ms \<and> list_all hashable ms \<and> td' = tdict_add n ms td)"
  by (auto simp: add_type_eq bnd_eq_Inr split: if_splits)

lemma map_of_tdict_add:
  "map_of (tdict_add n ms td) T =
     (if T = n then Some (fold set_add ms (case map_of td n of None \<Rightarrow> [] | Some s \<Rightarrow> s))
      else map_of td T)"
  by (simp add: tdict_add_def map_of_dict_set)

lemma td_members_tdict_add:
  "td_members (tdict_add n ms td) T = (if T = n then td_members td n \<union> set ms else td_members td T)"
  by (auto simp: td_members_def map_of_tdict_add split: option.splits)

lemma td_ok_tdict_add:
  assumes "td_ok td" "hashable n" "list_all hashable ms"
  shows "td_ok (tdict_add n ms td)"
proof -
  let ?s = "fold set_add ms (case map_of td n of None \<Rightarrow> [] | Some s \<Rightarrow> s)"
  have a: "distinct ?s \<and> list_all hashable ?s"
  proof (cases "map_of td n")
    case None
    with assms show ?thesis by (auto simp: distinct_fold_set_add list_all_iff)
  next
    case (Some s)
    then have "s \<in> set (map snd td)" by (rule map_of_in_values)
    with assms Some show ?thesis by (auto simp: td_ok_def distinct_fold_set_add list_all_iff)
  qed
  have "set (map snd (tdict_add n ms td)) \<subseteq> insert ?s (set (map snd td))"
    unfolding tdict_add_def by (rule dict_set_values)
  with a assms(1) have "list_all (\<lambda>s. distinct s \<and> list_all hashable s) (map snd (tdict_add n ms td))"
    unfolding td_ok_def list_all_iff by blast
  moreover from assms have "distinct (map fst (tdict_add n ms td)) \<and> list_all hashable (map fst (tdict_add n ms td))"
    by (auto simp: td_ok_def tdict_add_def dict_set_keys list_all_iff)
  ultimately show ?thesis by (simp add: td_ok_def)
qed

lemma add_type_ok: "add_type r td = Inr td' \<Longrightarrow> td_ok td \<Longrightarrow> td_ok td'"
  by (auto simp: add_type_Inr td_ok_tdict_add)

lemma add_type_mono: "add_type r td = Inr td' \<Longrightarrow> td_members td T \<subseteq> td_members td' T"
  by (auto simp: add_type_Inr td_members_tdict_add)

lemma add_type_member:
  "add_type r td = Inr td' \<Longrightarrow> subscript r ''name'' = Inr T \<Longrightarrow>
   bnd (subscript r ''members'') members_of = Inr ms \<Longrightarrow> set ms \<subseteq> td_members td' T"
  by (auto simp: add_type_Inr td_members_tdict_add bnd_eq_Inr)

lemma add_types_ok: "add_types rs td = Inr td' \<Longrightarrow> td_ok td \<Longrightarrow> td_ok td'"
  by (induction rs arbitrary: td) (auto simp: bnd_eq_Inr dest: add_type_ok)

lemma add_types_mono: "add_types rs td = Inr td' \<Longrightarrow> td_members td T \<subseteq> td_members td' T"
proof (induction rs arbitrary: td)
  case Nil
  then show ?case by simp
next
  case (Cons r rs)
  then obtain td1 where "add_type r td = Inr td1" "add_types rs td1 = Inr td'"
    by (auto simp: bnd_eq_Inr)
  with Cons.IH [of td1] add_type_mono [of r td td1 T] show ?case by blast
qed

lemma add_types_member:
  "add_types rs td = Inr td' \<Longrightarrow> r \<in> set rs \<Longrightarrow> subscript r ''name'' = Inr T \<Longrightarrow>
   bnd (subscript r ''members'') members_of = Inr ms \<Longrightarrow> set ms \<subseteq> td_members td' T"
proof (induction rs arbitrary: td)
  case Nil
  then show ?case by simp
next
  case (Cons r' rs)
  from Cons.prems(1) obtain td1 where s: "add_type r' td = Inr td1" "add_types rs td1 = Inr td'"
    by (auto simp: bnd_eq_Inr)
  show ?case
  proof (cases "r = r'")
    case True
    with s(1) Cons.prems have "set ms \<subseteq> td_members td1 T" by (auto dest: add_type_member)
    with add_types_mono [OF s(2), of T] show ?thesis by blast
  next
    case False
    with Cons.prems have "r \<in> set rs" by simp
    from Cons.IH [OF s(2) this Cons.prems(3,4)] show ?thesis .
  qed
qed

subsection \<open>One manifest, and the loop\<close>

lemma process_types:
  "process d st = Inr st' \<Longrightarrow>
   \<exists>recs. bnd (field ''types'' d) mdt_types_of = Inr recs \<and>
     add_types recs (types_dict st) = Inr (types_dict st')"
  by (auto simp: process_def field_def bnd_eq_Inr)

lemma process_ok: "process d st = Inr st' \<Longrightarrow> td_ok (types_dict st) \<Longrightarrow> td_ok (types_dict st')"
  by (auto dest!: process_types dest: add_types_ok)

lemma process_mono:
  "process d st = Inr st' \<Longrightarrow> td_members (types_dict st) T \<subseteq> td_members (types_dict st') T"
proof -
  assume "process d st = Inr st'"
  from process_types [OF this] obtain recs where
    "add_types recs (types_dict st) = Inr (types_dict st')" by blast
  then show ?thesis by (rule add_types_mono)
qed

lemma merge_loop_ok:
  "merge_loop ds st = Inr st' \<Longrightarrow> td_ok (types_dict st) \<Longrightarrow> td_ok (types_dict st')"
  by (induction ds arbitrary: st) (auto simp: bnd_eq_Inr split: if_splits dest: process_ok)

lemma merge_loop_mono:
  "merge_loop ds st = Inr st' \<Longrightarrow> td_members (types_dict st) T \<subseteq> td_members (types_dict st') T"
proof (induction ds arbitrary: st)
  case Nil
  then show ?case by simp
next
  case (Cons d ds)
  show ?case
  proof (cases "not_valid d = Inr False")
    case True
    with Cons.prems obtain st1 where s: "process d st = Inr st1" "merge_loop ds st1 = Inr st'"
      by (auto simp: bnd_eq_Inr)
    with Cons.IH [of st1] process_mono [of d st st1 T] show ?thesis by blast
  next
    case False
    with Cons.prems have "st' = st" by (auto simp: bnd_eq_Inr split: if_splits)
    then show ?thesis by simp
  qed
qed

lemma merge_loop_member:
  assumes "merge_loop ds st = Inr st'" "d \<in> set (processed ds)"
    "bnd (field ''types'' d) mdt_types_of = Inr recs" "r \<in> set recs"
    "subscript r ''name'' = Inr T" "bnd (subscript r ''members'') members_of = Inr ms"
  shows "set ms \<subseteq> td_members (types_dict st') T"
  using assms(1,2)
proof (induction ds arbitrary: st)
  case Nil
  then show ?case by (simp add: processed_def)
next
  case (Cons d' ds)
  from Cons.prems(2) have v: "not_valid d' = Inr False"
    by (auto simp: processed_def split: if_splits)
  with Cons.prems(1) obtain st1 where s: "process d' st = Inr st1" "merge_loop ds st1 = Inr st'"
    by (auto simp: bnd_eq_Inr)
  show ?case
  proof (cases "d = d'")
    case True
    from process_types [OF s(1)] True assms(3)
    have "add_types recs (types_dict st) = Inr (types_dict st1)" by auto
    from add_types_member [OF this assms(4,5,6)] merge_loop_mono [OF s(2), of T]
    show ?thesis by blast
  next
    case False
    with Cons.prems(2) v have "d \<in> set (processed ds)" by (simp add: processed_def)
    from Cons.IH [OF s(2) this] show ?thesis .
  qed
qed

subsection \<open>Sorting\<close>

lemma sorted_wrt_py_lt_strs: "sorted_wrt py_lt (map VStr ss) \<longleftrightarrow> sorted_wrt (<) ss"
  by (simp add: sorted_wrt_map py_lt_def)

lemma distinct_map_VStr [simp]: "distinct (map VStr ss) \<longleftrightarrow> distinct ss"
  by (simp add: distinct_map inj_on_def)

lemma short_sorted_wrt: "length xs \<le> 1 \<Longrightarrow> sorted_wrt P xs"
  by (cases xs) auto

lemma py_sort_cases:
  assumes "py_sort xs = Inr ys"
  obtains (strs) ss where "xs = map VStr ss" "ys = map VStr (sort ss)"
        | (short) "ys = xs" "length xs \<le> 1"
  using assms by (auto simp: py_sort_def the_strs_Some_iff split: option.splits if_splits)

lemma py_sort_set: "py_sort xs = Inr ys \<Longrightarrow> set ys = set xs"
  by (erule py_sort_cases) auto

lemma py_sort_length: "py_sort xs = Inr ys \<Longrightarrow> length ys = length xs"
  by (erule py_sort_cases) auto

lemma py_sort_distinct: "py_sort xs = Inr ys \<Longrightarrow> distinct xs \<Longrightarrow> distinct ys"
  by (erule py_sort_cases) auto

lemma py_sort_sorted: "py_sort xs = Inr ys \<Longrightarrow> distinct xs \<Longrightarrow> sorted_wrt py_lt ys"
  by (erule py_sort_cases) (auto simp: sorted_wrt_py_lt_strs strict_sorted_iff short_sorted_wrt)

lemma py_sort_short: "length xs \<le> 1 \<Longrightarrow> py_sort xs = Inr xs"
proof (cases xs)
  case Nil
  then show ?thesis by (simp add: py_sort_def)
next
  case (Cons x rest)
  assume "length xs \<le> 1"
  with Cons have "rest = []" by simp
  with Cons show ?thesis by (cases x) (simp_all add: py_sort_def)
qed

lemma py_sort_idem: "py_sort xs = Inr ys \<Longrightarrow> py_sort ys = Inr ys"
  by (erule py_sort_cases) (auto simp: sorted_sort_id py_sort_short)

subsection \<open>The rendered records\<close>

lemma render_Inr:
  "render names td = Inr recs \<Longrightarrow>
   \<exists>mss. recs = map2 type_record names mss \<and>
     list_all2 (\<lambda>n ms. \<exists>s. map_of td n = Some s \<and> py_sort s = Inr ms) names mss"
proof (induction names arbitrary: recs)
  case Nil
  then show ?case by simp
next
  case (Cons n names)
  from Cons.prems obtain s ms rest where
    h: "map_of td n = Some s" "py_sort s = Inr ms" "render names td = Inr rest"
       "recs = type_record n ms # rest"
    by (auto simp: bnd_eq_Inr split: option.splits)
  from Cons.IH [OF h(3)] obtain mss where
    "rest = map2 type_record names mss"
    "list_all2 (\<lambda>n ms. \<exists>s. map_of td n = Some s \<and> py_sort s = Inr ms) names mss" by blast
  with h have "recs = map2 type_record (n # names) (ms # mss) \<and>
    list_all2 (\<lambda>n ms. \<exists>s. map_of td n = Some s \<and> py_sort s = Inr ms) (n # names) (ms # mss)"
    by simp
  then show ?case by blast
qed

lemma render_eq:
  "list_all2 (\<lambda>n ms. \<exists>s. map_of td n = Some s \<and> py_sort s = Inr ms) names mss \<Longrightarrow>
   render names td = Inr (map2 type_record names mss)"
  by (induction names mss rule: list_all2_induct) auto

lemma td_ok_init [simp]: "td_ok (types_dict init)"
  by (simp add: init_def td_ok_def)

lemma td_ok_lookup: "td_ok td \<Longrightarrow> map_of td n = Some s \<Longrightarrow> distinct s \<and> list_all hashable s"
  by (auto simp: td_ok_def list_all_iff dest!: map_of_in_values)

text \<open>The state after the loop and the result, side by side.\<close>

lemma merge_Inr:
  assumes "merge packages = Inr out"
  obtains st t p0 ss x names mss where
    "merge_loop packages init = Inr st" "td_ok (types_dict st)"
    "template st = Some t" "map_of t ''Package'' = Some (VDict p0)"
    "package_names st = map VStr ss" "max_version st = Some x"
    "py_sort (map fst (types_dict st)) = Inr names"
    "list_all2 (\<lambda>n ms. \<exists>s. map_of (types_dict st) n = Some s \<and> py_sort s = Inr ms) names mss"
    "out = dict_set t ''Package'' (VDict (final_package p0 ss x (map2 type_record names mss)))"
proof -
  from assms obtain st where l: "merge_loop packages init = Inr st" and f: "finalize st = Inr out"
    by (auto simp: merge_def bnd_eq_Inr)
  from merge_loop_ok [OF l] have ok: "td_ok (types_dict st)" by simp
  from finalize_Inr [OF f] obtain t p0 ss x names recs where
    h: "template st = Some t" "map_of t ''Package'' = Some (VDict p0)"
       "package_names st = map VStr ss" "max_version st = Some x"
       "py_sort (map fst (types_dict st)) = Inr names"
       "render names (types_dict st) = Inr recs"
       "out = dict_set t ''Package'' (VDict (final_package p0 ss x recs))" by blast
  from render_Inr [OF h(6)] obtain mss where
    r: "recs = map2 type_record names mss"
    "list_all2 (\<lambda>n ms. \<exists>s. map_of (types_dict st) n = Some s \<and> py_sort s = Inr ms) names mss"
    by blast
  show thesis
    by (rule that [OF l ok h(1-5) r(2)]) (simp add: h(7) r(1))
qed

lemma field_types_final:
  "field ''types'' (dict_set t ''Package'' (VDict (final_package p0 ss x recs))) = Inr (VList recs)"
  by (simp add: field_dict_set final_package_def subscript_def map_of_dict_set)

subsection \<open>Records by name\<close>

lemma count_list_distinct: "distinct xs \<Longrightarrow> x \<in> set xs \<Longrightarrow> count_list xs x = 1"
  by (induction xs) auto

lemma subscript_type_record [simp]: "subscript (type_record n ms) ''name'' = Inr n"
  by (simp add: type_record_def subscript_def)

lemma filter_records:
  assumes "length mss = length names" "distinct names" "T \<in> set names"
  shows "\<exists>ms. filter (\<lambda>r. subscript r ''name'' = Inr T) (map2 type_record names mss) = [type_record T ms]
           \<and> (T, ms) \<in> set (zip names mss)"
  using assms
proof (induction mss names rule: list_induct2)
  case Nil
  then show ?case by simp
next
  case (Cons ms mss n names)
  show ?case
  proof (cases "n = T")
    case True
    with Cons.prems have "T \<notin> set names" by simp
    then have "filter (\<lambda>r. subscript r ''name'' = Inr T) (map2 type_record names mss) = []"
      by (auto simp: filter_empty_conv dest: set_zip_leftD)
    with True show ?thesis by auto
  next
    case False
    with Cons show ?thesis by auto
  qed
qed

subsection \<open>Normal forms\<close>

lemma bnd_assoc: "bnd (bnd m f) g = bnd m (\<lambda>x. bnd (f x) g)"
  by (cases m) simp_all

lemma bnd_cong: "m = m' \<Longrightarrow> (\<And>x. m' = Inr x \<Longrightarrow> f x = g x) \<Longrightarrow> bnd m f = bnd m' g"
  by (cases m') simp_all

lemma dict_set_commute:
  "k \<in> fst ` set kvs \<Longrightarrow> k \<noteq> k' \<Longrightarrow>
   dict_set (dict_set kvs k v) k' v' = dict_set (dict_set kvs k' v') k v"
  by (induction kvs) force+

lemma dict_set_key_kept: "k \<in> fst ` set kvs \<Longrightarrow> k \<in> fst ` set (dict_set kvs k' v)"
  by (induction kvs) force+

lemma dict_set_keys_present:
  "k \<in> fst ` set kvs \<Longrightarrow> fst ` set (dict_set kvs k v) = fst ` set kvs"
  using dict_set_keys [of kvs k v] by (metis list.set_map)

lemma normalize_doc_cases:
  obtains (same) "normalize_doc d = d"
  | (changed) p T where "map_of d ''Package'' = Some (VDict p)" "map_of p ''types'' = Some T"
      "normalize_doc d = dict_set d ''Package'' (VDict (dict_set p ''types'' (normalize_types T)))"
proof (cases "\<exists>p T. map_of d ''Package'' = Some (VDict p) \<and> map_of p ''types'' = Some T")
  case True
  then obtain p T where h: "map_of d ''Package'' = Some (VDict p)" "map_of p ''types'' = Some T"
    by blast
  then have "normalize_doc d = dict_set d ''Package'' (VDict (dict_set p ''types'' (normalize_types T)))"
    by (simp add: normalize_doc_def)
  with h show thesis by (rule changed)
next
  case False
  then have "normalize_doc d = d"
    by (auto simp: normalize_doc_def split: option.splits pyval.splits)
  then show thesis by (rule same)
qed

lemma mdt_types_of_normalize:
  "mdt_types_of (normalize_types T) = bnd (mdt_types_of T) (\<lambda>rs. Inr (map normalize_record rs))"
  by (cases T) (simp_all add: normalize_types_def normalizeTypes_def mdt_types_of_def
      normalize_record_def comp_def)

lemma subscript_normalize_record_name:
  "subscript (normalize_record r) ''name'' = subscript r ''name''"
  by (cases r) (simp_all add: normalize_record_def subscript_def map_of_dict_set split: option.splits)

lemma members_of_normalize [simp]: "members_of (normalizeMembers m) = members_of m"
  by (cases m) (simp_all add: normalizeMembers_def members_of_def)

lemma subscript_normalize_record_members:
  "bnd (subscript (normalize_record r) ''members'') f
     = bnd (subscript r ''members'') (\<lambda>m. f (normalizeMembers m))"
  by (cases r) (simp_all add: normalize_record_def subscript_def map_of_dict_set split: option.splits)

lemma add_type_normalize: "add_type (normalize_record r) td = add_type r td"
  by (simp add: add_type_eq subscript_normalize_record_name subscript_normalize_record_members
      cong: if_cong)

lemma add_types_normalize: "add_types (map normalize_record rs) = add_types rs"
proof (induction rs)
  case Nil
  show ?case by simp
next
  case (Cons r rs)
  show ?case by (rule ext) (simp add: Cons.IH add_type_normalize)
qed

lemma not_valid_normalize: "not_valid (normalize_doc d) = not_valid d"
proof (cases d rule: normalize_doc_cases)
  case same
  then show ?thesis by simp
next
  case (changed p T)
  from changed(1) have k: "''Package'' \<in> fst ` set d" by (auto dest: map_of_SomeD intro: rev_image_eqI)
  from changed(2) have t: "''types'' \<in> fst ` set p" by (auto dest: map_of_SomeD intro: rev_image_eqI)
  show ?thesis
    unfolding changed(3) not_valid_def
    using changed(1)
    by (simp add: contains_def subscript_def map_of_dict_set dict_set_keys_present [OF k]
        dict_set_keys_present [OF t])
qed

lemma process_normalize:
  assumes "types_dict st' = types_dict st" "package_names st' = package_names st"
    "max_version st' = max_version st"
  shows "process (normalize_doc d) st'
         = bnd (process d st) (\<lambda>s. Inr (s\<lparr>template :=
             (case template st' of
                None \<Rightarrow> Some (normalize_doc d)
              | Some t \<Rightarrow> if t = [] then Some (normalize_doc d) else Some t)\<rparr>))"
proof (cases d rule: normalize_doc_cases)
  case same
  show ?thesis
    unfolding same process_def assms bnd_assoc
    by simp
next
  case (changed p T)
  have s: "subscript (VDict (normalize_doc d)) ''Package''
             = Inr (VDict (dict_set p ''types'' (normalize_types T)))"
    by (simp add: changed(3) subscript_def map_of_dict_set)
  have s0: "subscript (VDict d) ''Package'' = Inr (VDict p)"
    by (simp add: changed(1) subscript_def)
  have f: "subscript (VDict (dict_set p ''types'' (normalize_types T))) k
             = (if k = ''types'' then Inr (normalize_types T) else subscript (VDict p) k)" for k
    by (simp add: subscript_def map_of_dict_set)
  have t: "subscript (VDict p) ''types'' = Inr T"
    by (simp add: changed(2) subscript_def)
  show ?thesis
    unfolding process_def assms s s0 bnd_Inr f bnd_assoc
    by (simp add: t mdt_types_of_normalize bnd_assoc add_types_normalize)
qed

lemma normalize_doc_Nil [simp]: "normalize_doc d = [] \<longleftrightarrow> d = []"
proof (cases d rule: normalize_doc_cases)
  case same
  then show ?thesis by simp
next
  case (changed p T)
  from changed(1) have "d \<noteq> []" by auto
  moreover have "dict_set d k v \<noteq> []" for k v by (cases d) (auto split: if_splits)
  ultimately show ?thesis by (simp add: changed(3))
qed

lemma normalize_doc_idem [simp]: "normalize_doc [] = []"
  by (simp add: normalize_doc_def)

lemma process_agg_rel:
  assumes "agg_rel st' st" "d' = d \<or> d' = normalize_doc d"
  shows "rel_sum (=) agg_rel (process d' st') (process d st)"
proof -
  from assms(1) have e: "types_dict st' = types_dict st" "package_names st' = package_names st"
    "max_version st' = max_version st"
    and r: "rel_option (\<lambda>t' t. t' = t \<or> t' = normalize_doc t) (template st') (template st)"
    by (simp_all add: agg_rel_def)
  show ?thesis
  proof (cases "process d st")
    case (Inl err)
    from assms(2) show ?thesis
    proof
      assume "d' = normalize_doc d"
      with Inl process_normalize [OF e, of d] show ?thesis by simp
    next
      assume "d' = d"
      moreover have "process d st' = bnd (process d st) (\<lambda>s. Inr (s\<lparr>template :=
             (case template st' of None \<Rightarrow> Some d | Some t \<Rightarrow> if t = [] then Some d else Some t)\<rparr>))"
        unfolding process_def e bnd_assoc by simp
      ultimately show ?thesis using Inl by simp
    qed
  next
    case (Inr s)
    then have ts: "template s = (case template st of None \<Rightarrow> Some d | Some t \<Rightarrow> if t = [] then Some d else Some t)"
      by (auto simp: process_def bnd_eq_Inr)
    have p: "process d st' = bnd (process d st) (\<lambda>s. Inr (s\<lparr>template :=
             (case template st' of None \<Rightarrow> Some d | Some t \<Rightarrow> if t = [] then Some d else Some t)\<rparr>))"
      unfolding process_def e bnd_assoc by simp
    from assms(2) obtain s' where s': "process d' st' = Inr s'" "s' = s\<lparr>template := template s'\<rparr>"
      "template s' = (case template st' of None \<Rightarrow> Some d' | Some t \<Rightarrow> if t = [] then Some d' else Some t)"
      using Inr p process_normalize [OF e, of d] by auto
    from r ts s'(3) assms(2)
    have "rel_option (\<lambda>t' t. t' = t \<or> t' = normalize_doc t) (template s') (template s)"
      by (cases "template st'"; cases "template st") auto
    moreover from s'(2) have "types_dict s' = types_dict s" "package_names s' = package_names s"
      "max_version s' = max_version s"
      by (metis agg.select_convs agg.surjective agg.update_convs)+
    ultimately have "agg_rel s' s" by (simp add: agg_rel_def)
    with s'(1) Inr show ?thesis by simp
  qed
qed

lemma merge_loop_agg_rel:
  assumes "list_all2 (\<lambda>d' d. d' = d \<or> d' = normalize_doc d) ds' ds" "agg_rel st' st"
  shows "rel_sum (=) agg_rel (merge_loop ds' st') (merge_loop ds st)"
  using assms
proof (induction ds' ds arbitrary: st' st rule: list_all2_induct)
  case Nil
  then show ?case by simp
next
  case (Cons d' ds' d ds)
  from Cons.hyps(1) have nv: "not_valid d' = not_valid d" by (auto simp: not_valid_normalize)
  show ?case
  proof (cases "not_valid d")
    case (Inl e)
    with nv show ?thesis by simp
  next
    case (Inr skip)
    show ?thesis
    proof (cases skip)
      case True
      with nv Inr Cons.prems show ?thesis by simp
    next
      case False
      from process_agg_rel [OF Cons.prems Cons.hyps(1)]
      have pr: "rel_sum (=) agg_rel (process d' st') (process d st)" .
      show ?thesis
      proof (cases "process d st")
        case (Inl e)
        with pr have "process d' st' = Inl e" by (cases "process d' st'") auto
        with Inl nv Inr False show ?thesis by simp
      next
        case ps: (Inr s)
        with pr obtain s' where s': "process d' st' = Inr s'" "agg_rel s' s"
          by (cases "process d' st'") auto
        from Cons.IH [OF s'(2)] s'(1) ps nv Inr False show ?thesis by simp
      qed
    qed
  qed
qed

lemma finalize_agg_rel:
  assumes "agg_rel st' st"
  shows "finalize st' = finalize st"
proof -
  from assms have e: "types_dict st' = types_dict st" "package_names st' = package_names st"
    "max_version st' = max_version st"
    and r: "rel_option (\<lambda>t' t. t' = t \<or> t' = normalize_doc t) (template st') (template st)"
    by (simp_all add: agg_rel_def)
  show ?thesis
  proof (cases "template st")
    case None
    with r have "template st' = None" by (cases "template st'") auto
    with None e show ?thesis by (simp add: finalize_def)
  next
    case (Some t)
    with r obtain t' where t': "template st' = Some t'" "t' = t \<or> t' = normalize_doc t"
      by (cases "template st'") auto
    show ?thesis
    proof (cases t rule: normalize_doc_cases)
      case same
      with t' have "t' = t" by auto
      with t' Some e show ?thesis by (simp add: finalize_def)
    next
      case (changed p T)
      show ?thesis
      proof (cases "t' = t")
        case True
        with t' Some e show ?thesis by (simp add: finalize_def)
      next
        case False
        with t' changed have t'': "t' = dict_set t ''Package'' (VDict (dict_set p ''types'' (normalize_types T)))"
          by auto
        from changed(2) have k: "''types'' \<in> fst ` set p"
          by (auto dest: map_of_SomeD intro: rev_image_eqI)
        have a: "subscript (VDict t') ''Package'' = Inr (VDict (dict_set p ''types'' (normalize_types T)))"
          by (simp add: t'' subscript_def map_of_dict_set)
        have b: "subscript (VDict t) ''Package'' = Inr (VDict p)"
          by (simp add: changed(1) subscript_def)
        have c: "dict_set t' ''Package'' v = dict_set t ''Package'' v" for v
          by (simp add: t'')
        have d: "dict_set (dict_set (dict_set (dict_set (dict_set p ''types'' (normalize_types T))
                   ''fullName'' (VStr ''Merged_Package'')) ''description'' (VStr (header @ j)))
                   ''version'' (VStr v)) ''types'' (VList recs)
               = dict_set (dict_set (dict_set (dict_set p
                   ''fullName'' (VStr ''Merged_Package'')) ''description'' (VStr (header @ j)))
                   ''version'' (VStr v)) ''types'' (VList recs)" for j v recs
        proof -
          let ?a = "dict_set p ''fullName'' (VStr ''Merged_Package'')"
          let ?b = "dict_set ?a ''description'' (VStr (header @ j))"
          from k have ka: "''types'' \<in> fst ` set ?a" by (rule dict_set_key_kept)
          then have kb: "''types'' \<in> fst ` set ?b" by (rule dict_set_key_kept)
          show ?thesis
            by (simp add: dict_set_commute [OF k] dict_set_commute [OF ka] dict_set_commute [OF kb])
        qed
        show ?thesis
          unfolding finalize_def e t'(1) Some option.case a b bnd_Inr setitem_dict c
          by (simp add: d)
      qed
    qed
  qed
qed

lemma mdt_types_of_normalizeTypes: "mdt_types_of (normalizeTypes t) = mdt_types_of t"
  by (cases t) (simp_all add: normalizeTypes_def mdt_types_of_def)

subsection \<open>Digits\<close>

lemma digit_chars: "list_all (\<lambda>n. is_digit (digit_char n)) [0..<10]"
  by code_simp

lemma is_digit_digit_char: "n < 10 \<Longrightarrow> is_digit (digit_char n)"
  using digit_chars by (simp add: list_all_iff)

lemma digit_val_digit_char: "n < 10 \<Longrightarrow> digit_val (digit_char n) = n"
  by (simp add: digit_val_def digit_char_def)

lemma is_digit_not_point [simp]: "\<not> is_digit CHR ''.''" "\<not> is_digit CHR ''-''"
  by (simp_all add: is_digit_def)

lemma digit_val_le: "is_digit c \<Longrightarrow> digit_val c \<le> 9"
  by (auto simp: is_digit_def digit_val_def)

lemma nat_of_digits_snoc: "nat_of_digits (ds @ [c]) = 10 * nat_of_digits ds + digit_val c"
  by (simp add: nat_of_digits_def)

lemma nat_of_digits_single: "nat_of_digits [c] = digit_val c"
  by (simp add: nat_of_digits_def)

lemma digits_of_all: "list_all is_digit (digits_of n)"
  by (induction n rule: digits_of.induct)
    (subst digits_of.simps, simp add: is_digit_digit_char)

lemma digits_of_not_Nil: "digits_of n \<noteq> []"
  by (subst digits_of.simps) simp

lemma nat_of_digits_of: "nat_of_digits (digits_of n) = n"
  by (induction n rule: digits_of.induct)
    (subst digits_of.simps, simp add: nat_of_digits_snoc nat_of_digits_single digit_val_digit_char)

lemma length_digits_of: "n < 10 ^ k \<Longrightarrow> 0 < k \<Longrightarrow> length (digits_of n) \<le> k"
proof (induction n arbitrary: k rule: digits_of.induct)
  case (1 n)
  show ?case
  proof (cases "n < 10")
    case True
    with "1.prems" show ?thesis by (subst digits_of.simps) simp
  next
    case False
    with "1.prems" obtain j where k: "k = Suc j" by (cases k) auto
    with False "1.prems" have "0 < j" by (cases j) auto
    moreover from k "1.prems" have "n div 10 < 10 ^ j" by (simp add: less_mult_imp_div_less mult.commute)
    ultimately have "length (digits_of (n div 10)) \<le> j" using "1.IH" False by simp
    with False k show ?thesis by (subst digits_of.simps) simp
  qed
qed

lemma nat_of_digits_bound: "list_all is_digit ds \<Longrightarrow> nat_of_digits ds < 10 ^ length ds"
proof (induction ds rule: rev_induct)
  case Nil
  then show ?case by (simp add: nat_of_digits_def)
next
  case (snoc c ds)
  then have "nat_of_digits ds < 10 ^ length ds" "digit_val c \<le> 9"
    by (auto dest: digit_val_le)
  then show ?case by (simp add: nat_of_digits_snoc)
qed

subsection \<open>Printing a version and reading it again\<close>

lemma float_of_str_bound:
  assumes "float_of_str s = Inr x"
  shows "tenths x < 10 ^ 15"
proof -
  define body where "body = (if take 1 s = ''-'' then drop 1 s else s)"
  define ip where "ip = takeWhile is_digit body"
  define fp where "fp = dropWhile is_digit body"
  have d: "list_all is_digit ip" by (auto simp: ip_def list_all_iff dest: set_takeWhileD)
  from assms have l: "length ip \<le> 14"
    by (auto simp: float_of_str_def Let_def body_def ip_def split: if_splits)
  from nat_of_digits_bound [OF d] have "nat_of_digits ip < 10 ^ length ip" .
  also from l have "\<dots> \<le> (10::nat) ^ 14" by (intro power_increasing) simp_all
  finally have b: "nat_of_digits ip < 10 ^ 14" .
  from assms have "tenths x = 10 * nat_of_digits ip \<or>
      (is_digit (last fp) \<and> tenths x = 10 * nat_of_digits ip + digit_val (last fp))"
    by (auto simp: float_of_str_def Let_def body_def ip_def fp_def split: if_splits)
  with b show ?thesis by (auto dest: digit_val_le)
qed

lemma float_of_str_format:
  assumes "tenths x < 10 ^ 15"
  shows "float_of_str (format_1f x) = Inr x"
proof -
  let ?D = "digits_of (tenths x div 10)"
  let ?f = "digit_char (tenths x mod 10)"
  let ?body = "?D @ ''.'' @ [?f]"
  have all: "\<And>c. c \<in> set ?D \<Longrightarrow> is_digit c"
    using digits_of_all [of "tenths x div 10"] by (simp add: list_all_iff)
  obtain c cs where D: "?D = c # cs" using digits_of_not_Nil [of "tenths x div 10"] by (cases ?D) auto
  with all have c: "is_digit c" by simp
  then have cm: "c \<noteq> CHR ''-''" by auto
  have tw: "takeWhile is_digit ?body = ?D"
    using all by (simp add: takeWhile_append2)
  have dw: "dropWhile is_digit ?body = ''.'' @ [?f]"
    using all by (simp add: dropWhile_append2)
  from assms have "tenths x div 10 < 10 ^ 14" by simp
  then have len: "length ?D \<le> 14" by (rule length_digits_of) simp
  have f: "is_digit ?f" "digit_val ?f = tenths x mod 10"
    by (simp_all add: is_digit_digit_char digit_val_digit_char)
  have body: "float_of_str (format_1f x)
      = (let neg = negative x; body = ?body; ip = takeWhile is_digit body; fp = dropWhile is_digit body
         in if ip = [] \<or> 14 < length ip then Inl Unmodelled
         else if fp = [] then Inr (PyFloat neg (10 * nat_of_digits ip))
         else if length fp = 2 \<and> hd fp = CHR ''.'' \<and> is_digit (last fp)
           then Inr (PyFloat neg (10 * nat_of_digits ip + digit_val (last fp)))
         else Inl Unmodelled)"
    using cm by (cases "negative x") (simp_all add: float_of_str_def format_1f_def D)
  show ?thesis
    unfolding body Let_def tw dw
    using len f digits_of_not_Nil [of "tenths x div 10"]
    by (cases x) (simp add: nat_of_digits_of)
qed


lemma version_ok_init [simp]: "version_ok (max_version init)"
  by (simp add: init_def version_ok_def)

lemma py_float_bound: "py_float v = Inr x \<Longrightarrow> tenths x < 10 ^ 15"
  by (cases v) (auto simp: py_float_def dest: float_of_str_bound)

lemma process_version_ok:
  assumes "process d st = Inr st'" "version_ok (max_version st)"
  shows "version_ok (max_version st')"
proof -
  from assms(1) obtain v where v: "tenths v < 10 ^ 15"
    "max_version st' = Some (py_max (case max_version st of None \<Rightarrow> v
        | Some m \<Rightarrow> if falsy (Some m) then v else m) v)"
    by (auto simp: process_def bnd_eq_Inr dest: py_float_bound)
  with assms(2) show ?thesis
    by (auto simp: version_ok_def py_max_def split: option.splits)
qed

lemma merge_loop_version_ok:
  "merge_loop ds st = Inr st' \<Longrightarrow> version_ok (max_version st) \<Longrightarrow> version_ok (max_version st')"
  by (induction ds arbitrary: st) (auto simp: bnd_eq_Inr split: if_splits dest: process_version_ok)

subsection \<open>Reading the rendered records\<close>

lemma map_of_key: "map_of kvs k = Some v \<Longrightarrow> k \<in> fst ` set kvs"
  by (auto dest: map_of_SomeD intro: rev_image_eqI)

lemma tdict_add_new:
  "n \<notin> fst ` set td \<Longrightarrow> distinct ms \<Longrightarrow> tdict_add n ms td = td @ [(n, ms)]"
  by (simp add: tdict_add_def map_of_eq_None_iff [THEN iffD2] fold_set_add_distinct dict_set_new)

lemma add_type_record:
  assumes "hashable n" "list_all hashable ms" "distinct ms" "n \<notin> fst ` set td"
  shows "add_type (type_record n ms) td = Inr (td @ [(n, ms)])"
  using assms
  by (simp add: add_type_eq type_record_def subscript_def members_of_def tdict_add_new)

lemma add_types_records:
  assumes "length mss = length names" "distinct names" "list_all hashable names"
    "\<forall>ms \<in> set mss. distinct ms \<and> list_all hashable ms" "set names \<inter> fst ` set td = {}"
  shows "add_types (map2 type_record names mss) td = Inr (td @ zip names mss)"
  using assms
proof (induction mss names arbitrary: td rule: list_induct2)
  case Nil
  then show ?case by simp
next
  case (Cons ms mss n names)
  from Cons.prems have a: "add_type (type_record n ms) td = Inr (td @ [(n, ms)])"
    by (intro add_type_record) auto
  from Cons.prems have "set names \<inter> fst ` set (td @ [(n, ms)]) = {}" by auto
  with Cons.prems have "add_types (map2 type_record names mss) (td @ [(n, ms)])
      = Inr ((td @ [(n, ms)]) @ zip names mss)"
    by (intro Cons.IH) auto
  with a show ?case by simp
qed

lemma render_zip:
  assumes "length mss = length names" "distinct names" "\<forall>ms \<in> set mss. py_sort ms = Inr ms"
  shows "render names (zip names mss) = Inr (map2 type_record names mss)"
proof (rule render_eq)
  show "list_all2 (\<lambda>n ms. \<exists>s. map_of (zip names mss) n = Some s \<and> py_sort s = Inr ms) names mss"
    unfolding list_all2_conv_all_nth
  proof (intro conjI allI impI)
    show "length names = length mss" using assms(1) by simp
  next
    fix i assume i: "i < length names"
    with assms(1,2) have "map_of (zip names mss) (names ! i) = Some (mss ! i)"
      by (intro map_of_zip_nth) simp_all
    moreover from i assms(1,3) have "py_sort (mss ! i) = Inr (mss ! i)" by simp
    ultimately show "\<exists>s. map_of (zip names mss) (names ! i) = Some s \<and> py_sort s = Inr (mss ! i)"
      by blast
  qed
qed


lemma final_package_lookup:
  "map_of (final_package p0 ss x recs) ''fullName'' = Some (VStr ''Merged_Package'')"
  "map_of (final_package p0 ss x recs) ''version'' = Some (VStr (format_1f x))"
  "map_of (final_package p0 ss x recs) ''types'' = Some (VList recs)"
  by (simp_all add: final_package_def map_of_dict_set)

lemma final_package_again:
  "final_package (final_package p0 ss x recs) ss' x recs
     = dict_set (final_package p0 ss x recs) ''description''
         (VStr (header @ join [CHR 0x0A] (sort ss')))"
proof -
  let ?P = "final_package p0 ss x recs"
  let ?Q = "dict_set ?P ''description'' (VStr (header @ join [CHR 0x0A] (sort ss')))"
  have a: "dict_set ?P ''fullName'' (VStr ''Merged_Package'') = ?P"
    by (rule dict_set_same) (rule final_package_lookup)
  have b: "dict_set ?Q ''version'' (VStr (format_1f x)) = ?Q"
    by (rule dict_set_same) (simp add: map_of_dict_set final_package_lookup)
  have c: "dict_set ?Q ''types'' (VList recs) = ?Q"
    by (rule dict_set_same) (simp add: map_of_dict_set final_package_lookup)
  have "final_package ?P ss' x recs
      = dict_set (dict_set (dict_set (dict_set (dict_set ?P
          ''fullName'' (VStr ''Merged_Package''))
          ''description'' (VStr (header @ join [CHR 0x0A] (sort ss'))))
          ''version'' (VStr (format_1f x)))
          ''types'' (VList []))
          ''types'' (VList recs)"
    by (subst final_package_def) (rule refl)
  also have "\<dots> = ?Q" unfolding a b dict_set_twice c by (rule refl)
  finally show ?thesis .
qed

text \<open>Merging a document that \<open>merge\<close> has returned.\<close>

lemma merge_result_again:
  assumes "merge packages = Inr out"
  obtains t P where "out = dict_set t ''Package'' (VDict P)"
    "merge [out] = Inr (dict_set out ''Package''
       (VDict (dict_set P ''description'' (VStr (header @ ''Merged_Package'')))))"
proof -
  from assms(1) obtain st t p0 ss x names mss where
    l: "merge_loop packages init = Inr st" and ok: "td_ok (types_dict st)" and
    tm: "template st = Some t" "map_of t ''Package'' = Some (VDict p0)" and
    pn: "package_names st = map VStr ss" and mv: "max_version st = Some x" and
    ns: "py_sort (map fst (types_dict st)) = Inr names" and
    la: "list_all2 (\<lambda>n ms. \<exists>s. map_of (types_dict st) n = Some s \<and> py_sort s = Inr ms) names mss" and
    out: "out = dict_set t ''Package'' (VDict (final_package p0 ss x (map2 type_record names mss)))"
    by (rule merge_Inr)
  let ?recs = "map2 type_record names mss"
  let ?P = "final_package p0 ss x ?recs"
  \<comment> \<open>the version is read back as it was\<close>
  from merge_loop_version_ok [OF l version_ok_init] mv have "tenths x < 10 ^ 15"
    by (simp add: version_ok_def)
  then have fl: "float_of_str (format_1f x) = Inr x" by (rule float_of_str_format)
  \<comment> \<open>names and members are distinct, hashable and in order\<close>
  from la have len: "length mss = length names" by (auto dest: list_all2_lengthD)
  from ok ns have dn: "distinct names" by (auto simp: td_ok_def dest: py_sort_distinct)
  from ok ns have hn: "list_all hashable names"
    by (auto simp: td_ok_def list_all_iff dest!: py_sort_set)
  have ms: "distinct ms \<and> list_all hashable ms \<and> py_sort ms = Inr ms" if "ms \<in> set mss" for ms
  proof -
    from that la obtain n s where s: "map_of (types_dict st) n = Some s" "py_sort s = Inr ms"
      by (auto simp: list_all2_conv_all_nth in_set_conv_nth)
    from td_ok_lookup [OF ok s(1)] s(2) show ?thesis
      by (auto simp: list_all_iff dest: py_sort_distinct py_sort_idem py_sort_set)
  qed
  from ns have sn: "py_sort names = Inr names" by (rule py_sort_idem)
  \<comment> \<open>the document passes the check and is worked on\<close>
  have po: "subscript (VDict out) ''Package'' = Inr (VDict ?P)"
    by (simp add: out subscript_def map_of_dict_set)
  have keys: "''version'' \<in> fst ` set ?P" "''types'' \<in> fst ` set ?P"
    by (rule map_of_key, rule final_package_lookup)+
  have nv: "not_valid out = Inr False"
    unfolding not_valid_def po
    using keys by (simp add: contains_def out)
  have at: "add_types ?recs [] = Inr (zip names mss)"
    using add_types_records [OF len dn hn, of "[]"] ms by simp
  have pr: "process out init =
      Inr \<lparr>types_dict = zip names mss, package_names = [VStr ''Merged_Package''],
           max_version = Some x, template = Some out\<rparr>"
    unfolding process_def po
    by (simp add: subscript_def final_package_lookup py_float_def fl mdt_types_of_def at
        init_def py_max_def)
  \<comment> \<open>and rendered again\<close>
  have rn: "render names (zip names mss) = Inr ?recs"
    using len dn ms by (intro render_zip) auto
  have mf: "map fst (zip names mss) = names" using len by simp
  have srt: "py_sort [VStr ''Merged_Package''] = Inr [VStr ''Merged_Package'']"
    by (simp add: py_sort_def)
  have jn: "py_join [CHR 0x0A] [VStr ''Merged_Package''] = Inr ''Merged_Package''"
    by (simp add: py_join_def)
  have "finalize \<lparr>types_dict = zip names mss, package_names = [VStr ''Merged_Package''],
           max_version = Some x, template = Some out\<rparr>
      = Inr (dict_set out ''Package'' (VDict (final_package ?P [''Merged_Package''] x ?recs)))"
    unfolding finalize_def
    by (simp add: srt po jn mf sn rn final_package_def)
  with nv pr have "merge [out] = Inr (dict_set out ''Package''
      (VDict (final_package ?P [''Merged_Package''] x ?recs)))"
    by (simp add: merge_def)
  then have "merge [out] = Inr (dict_set out ''Package''
       (VDict (dict_set ?P ''description'' (VStr (header @ ''Merged_Package'')))))"
    by (simp add: final_package_again)
  with out show thesis by (rule that)
qed

subsection \<open>The maximum of positive versions\<close>

lemma process_version:
  assumes "process d st = Inr st'"
  obtains v where "bnd (field ''version'' d) py_float = Inr v"
    "max_version st' = Some (py_max (case max_version st of None \<Rightarrow> v
        | Some m \<Rightarrow> if falsy (Some m) then v else m) v)"
  using assms by (auto simp: process_def field_def bnd_eq_Inr)

lemma is_max_single: "is_max v [v]"
  by (simp add: is_max_def)

lemma is_max_snoc: "is_max m vs \<Longrightarrow> is_max (py_max m v) (vs @ [v])"
  by (auto simp: is_max_def py_max_def list_all_iff)

lemma positive_py_max: "positive m \<Longrightarrow> positive v \<Longrightarrow> positive (py_max m v)"
  by (simp add: py_max_def)

lemma merge_loop_max:
  assumes "\<forall>d \<in> set ds. not_valid d = Inr False" "merge_loop ds st = Inr st'"
    "map (\<lambda>d. bnd (field ''version'' d) py_float) ds = map Inr vs" "list_all positive vs"
    "(max_version st = None \<and> seen = []) \<or>
     (\<exists>m. max_version st = Some m \<and> is_max m seen \<and> positive m)"
  shows "(max_version st' = None \<and> seen @ vs = []) \<or>
     (\<exists>m. max_version st' = Some m \<and> is_max m (seen @ vs) \<and> positive m)"
  using assms
proof (induction ds arbitrary: st seen vs)
  case Nil
  then show ?case by simp
next
  case (Cons d ds)
  from Cons.prems(1,2) obtain st1 where p: "process d st = Inr st1" and l: "merge_loop ds st1 = Inr st'"
    by (auto simp: bnd_eq_Inr)
  from Cons.prems(3) obtain v ws where vs: "vs = v # ws"
    "bnd (field ''version'' d) py_float = Inr v"
    "map (\<lambda>d. bnd (field ''version'' d) py_float) ds = map Inr ws"
    by (cases vs) auto
  from Cons.prems(4) vs(1) have pos: "positive v" "list_all positive ws" by simp_all
  from p vs(2) have mv: "max_version st1 = Some (py_max (case max_version st of None \<Rightarrow> v
        | Some m \<Rightarrow> if falsy (Some m) then v else m) v)"
    by (auto elim!: process_version)
  have "\<exists>m. max_version st1 = Some m \<and> is_max m (seen @ [v]) \<and> positive m"
  proof (cases "max_version st")
    case None
    with Cons.prems(5) have "seen = []" by auto
    with None mv pos(1) show ?thesis by (simp add: py_max_def is_max_single)
  next
    case (Some m)
    with Cons.prems(5) have m: "is_max m seen" "positive m" by auto
    then have "\<not> falsy (Some m)" by (simp add: falsy_def positive_def)
    with Some mv have "max_version st1 = Some (py_max m v)" by simp
    with m pos(1) show ?thesis by (auto intro: is_max_snoc positive_py_max)
  qed
  then have "(max_version st1 = None \<and> seen @ [v] = []) \<or>
     (\<exists>m. max_version st1 = Some m \<and> is_max m (seen @ [v]) \<and> positive m)" by blast
  from Cons.IH [OF _ l vs(3) pos(2) this] Cons.prems(1) vs(1) show ?case by simp
qed

text \<open>
  When every manifest is valid and every version is above zero, the version of the result
  is a greatest one of the versions, printed by \<^verbatim>\<open>.1f\<close>.
\<close>

lemma merge_version_positive:
  assumes "\<forall>d \<in> set packages. not_valid d = Inr False" "merge packages = Inr out"
    "map (\<lambda>d. bnd (field ''version'' d) py_float) packages = map Inr vs" "list_all positive vs"
  shows "\<exists>m. is_max m vs \<and> field ''version'' out = Inr (VStr (format_1f m))"
proof -
  from assms(2) obtain st where l: "merge_loop packages init = Inr st" and f: "finalize st = Inr out"
    by (auto simp: merge_def bnd_eq_Inr)
  have "(max_version init = None \<and> ([]::pyfloat list) = []) \<or>
     (\<exists>m. max_version init = Some m \<and> is_max m [] \<and> positive m)" by (simp add: init_def)
  from merge_loop_max [OF assms(1) l assms(3,4) this]
  have m: "(max_version st = None \<and> vs = []) \<or> (\<exists>m. max_version st = Some m \<and> is_max m vs \<and> positive m)"
    by simp
  from finalize_Inr [OF f] obtain t p0 ss x recs where
    o: "max_version st = Some x" "out = dict_set t ''Package'' (VDict (final_package p0 ss x recs))"
    by blast
  from o(2) have "field ''version'' out = Inr (VStr (format_1f x))"
    by (simp add: field_dict_set final_package_def subscript_def map_of_dict_set)
  with m o(1) show ?thesis by auto
qed

lemma merge_version_positive_example:
  "bnd (merge [manifest_a, manifest_c]) (field ''version'') = Inr (VStr ''59.0'') \<and>
   bnd (merge [manifest_c, manifest_a]) (field ''version'') = Inr (VStr ''59.0'')"
  by code_simp

subsection \<open>What the loop has collected\<close>

lemma keys_tdict_add: "fst ` set (tdict_add n ms td) = insert n (fst ` set td)"
  using dict_set_keys [of td n] by (auto simp: tdict_add_def simp flip: set_map)

lemma add_type_sem:
  assumes "add_type r td = Inr td'"
  obtains n ms where "subscript r ''name'' = Inr n"
    "bnd (subscript r ''members'') members_of = Inr ms"
    "fst ` set td' = insert n (fst ` set td)"
    "\<forall>T. td_members td' T = (if T = n then td_members td n \<union> set ms else td_members td T)"
proof -
  from assms obtain n m ms where h: "subscript r ''name'' = Inr n" "subscript r ''members'' = Inr m"
    "members_of m = Inr ms" "td' = tdict_add n ms td"
    by (auto simp: add_type_Inr)
  show thesis
  proof (rule that [of n ms])
    show "subscript r ''name'' = Inr n" by (rule h)
    show "bnd (subscript r ''members'') members_of = Inr ms" by (simp add: h)
    show "fst ` set td' = insert n (fst ` set td)" by (simp add: h keys_tdict_add)
    show "\<forall>T. td_members td' T = (if T = n then td_members td n \<union> set ms else td_members td T)"
      unfolding h(4) by (simp add: td_members_tdict_add)
  qed
qed

lemma add_types_sem:
  assumes "add_types rs td = Inr td'"
  shows "fst ` set td' = fst ` set td \<union> {T. \<exists>r \<in> set rs. subscript r ''name'' = Inr T}"
    and "td_members td' T = td_members td T \<union>
          {m. \<exists>r \<in> set rs. \<exists>ms. subscript r ''name'' = Inr T \<and>
             bnd (subscript r ''members'') members_of = Inr ms \<and> m \<in> set ms}"
  using assms
proof (induction rs arbitrary: td)
  case Nil
  {
    case 1 then show ?case by simp
  next
    case 2 then show ?case by simp
  }
next
  case (Cons r rs)
  {
    case 1
    then obtain td1 where s: "add_type r td = Inr td1" "add_types rs td1 = Inr td'"
      by (auto simp: bnd_eq_Inr)
    from s(1) obtain n ms where h: "subscript r ''name'' = Inr n"
      "bnd (subscript r ''members'') members_of = Inr ms"
      "fst ` set td1 = insert n (fst ` set td)"
      "\<forall>T. td_members td1 T = (if T = n then td_members td n \<union> set ms else td_members td T)"
      by (rule add_type_sem)
    from Cons.IH(1) [OF s(2)] h(1,3) show ?case by auto
  next
    case 2
    then obtain td1 where s: "add_type r td = Inr td1" "add_types rs td1 = Inr td'"
      by (auto simp: bnd_eq_Inr)
    from s(1) obtain n ms where h: "subscript r ''name'' = Inr n"
      "bnd (subscript r ''members'') members_of = Inr ms"
      "fst ` set td1 = insert n (fst ` set td)"
      "\<forall>T. td_members td1 T = (if T = n then td_members td n \<union> set ms else td_members td T)"
      by (rule add_type_sem)
    from Cons.IH(2) [OF s(2)] h(1,2,4) show ?case by (auto split: if_splits)
  }
qed

lemma process_sem:
  assumes "process d st = Inr st'"
  shows "fst ` set (types_dict st') = fst ` set (types_dict st) \<union> names_in d"
    and "td_members (types_dict st') T = td_members (types_dict st) T \<union> members_in d T"
proof -
  from process_types [OF assms] obtain recs where
    r: "bnd (field ''types'' d) mdt_types_of = Inr recs"
       "add_types recs (types_dict st) = Inr (types_dict st')" by blast
  from add_types_sem(1) [OF r(2)] r(1)
  show "fst ` set (types_dict st') = fst ` set (types_dict st) \<union> names_in d"
    by (auto simp: names_in_def)
  from add_types_sem(2) [OF r(2), of T] r(1)
  show "td_members (types_dict st') T = td_members (types_dict st) T \<union> members_in d T"
    by (auto simp: members_in_def)
qed

lemma merge_loop_sem:
  assumes "merge_loop ds st = Inr st'"
  shows "fst ` set (types_dict st') = fst ` set (types_dict st) \<union> (\<Union>d \<in> set (processed ds). names_in d)"
    and "td_members (types_dict st') T
           = td_members (types_dict st) T \<union> (\<Union>d \<in> set (processed ds). members_in d T)"
  using assms
proof (induction ds arbitrary: st)
  case Nil
  {
    case 1 then show ?case by (simp add: processed_def)
  next
    case 2 then show ?case by (simp add: processed_def)
  }
next
  case (Cons d ds)
  {
    case 1
    show ?case
    proof (cases "not_valid d = Inr False")
      case True
      with 1 obtain st1 where s: "process d st = Inr st1" "merge_loop ds st1 = Inr st'"
        by (auto simp: bnd_eq_Inr)
      from True have "processed (d # ds) = d # processed ds" by (simp add: processed_def)
      with Cons.IH(1) [OF s(2)] process_sem(1) [OF s(1)] show ?thesis by auto
    next
      case False
      with 1 have "st' = st" by (auto simp: bnd_eq_Inr split: if_splits)
      with False show ?thesis by (simp add: processed_def)
    qed
  next
    case 2
    show ?case
    proof (cases "not_valid d = Inr False")
      case True
      with 2 obtain st1 where s: "process d st = Inr st1" "merge_loop ds st1 = Inr st'"
        by (auto simp: bnd_eq_Inr)
      from True have "processed (d # ds) = d # processed ds" by (simp add: processed_def)
      with Cons.IH(2) [OF s(2)] process_sem(2) [OF s(1), of T] show ?thesis by auto
    next
      case False
      with 2 have "st' = st" by (auto simp: bnd_eq_Inr split: if_splits)
      with False show ?thesis by (simp add: processed_def)
    qed
  }
qed

subsection \<open>Sorting depends on the elements only\<close>

lemma short_same_set:
  assumes "length xs \<le> 1" "distinct xs" "distinct ys" "set xs = set ys"
  shows "xs = ys"
proof -
  from assms(2,3,4) have "length xs = length ys" by (metis distinct_card)
  with assms(1,4) show ?thesis
    by (cases xs; cases ys) auto
qed

lemma py_sort_unique:
  assumes "py_sort xs = Inr ys" "py_sort xs' = Inr ys'" "distinct xs" "distinct xs'" "set xs = set xs'"
  shows "ys = ys'"
proof (cases "length xs \<le> 1 \<or> length xs' \<le> 1")
  case True
  then have "xs = xs'"
  proof
    assume "length xs \<le> 1"
    then show ?thesis using assms(3,4,5) by (rule short_same_set)
  next
    assume "length xs' \<le> 1"
    then have "xs' = xs" using assms(4,3) assms(5) [symmetric] by (rule short_same_set)
    then show ?thesis by simp
  qed
  with assms(1,2) show ?thesis by simp
next
  case False
  with assms(1) obtain ss where s: "xs = map VStr ss" "ys = map VStr (sort ss)"
    by (auto elim: py_sort_cases)
  from False assms(2) obtain ss' where s': "xs' = map VStr ss'" "ys' = map VStr (sort ss')"
    by (auto elim: py_sort_cases)
  from assms(3,4) s s' have d: "distinct ss" "distinct ss'" by simp_all
  from assms(5) s s' have "set ss = set ss'" by (auto simp: inj_image_eq_iff inj_on_def)
  with d have "sort ss = sort ss'"
    by (intro sorted_distinct_set_unique) simp_all
  with s s' show ?thesis by simp
qed

text \<open>
  The types of the result depend only on which manifests the loop has worked on, not on
  their order: in particular not on the order of an input whose manifests are all valid.
\<close>

lemma merge_types_by_processed:
  assumes "merge ds = Inr out" "merge ds' = Inr out'" "set (processed ds') = set (processed ds)"
  shows "field ''types'' out' = field ''types'' out"
proof -
  from assms(1) obtain st t p0 ss x names mss where
    l: "merge_loop ds init = Inr st" and ok: "td_ok (types_dict st)" and
    tm: "template st = Some t" "map_of t ''Package'' = Some (VDict p0)" and
    pn: "package_names st = map VStr ss" and mv: "max_version st = Some x" and
    ns: "py_sort (map fst (types_dict st)) = Inr names" and
    la: "list_all2 (\<lambda>n ms. \<exists>s. map_of (types_dict st) n = Some s \<and> py_sort s = Inr ms) names mss" and
    out: "out = dict_set t ''Package'' (VDict (final_package p0 ss x (map2 type_record names mss)))"
    by (rule merge_Inr)
  from assms(2) obtain st' t' p0' ss' x' names' mss' where
    l': "merge_loop ds' init = Inr st'" and ok': "td_ok (types_dict st')" and
    tm': "template st' = Some t'" "map_of t' ''Package'' = Some (VDict p0')" and
    pn': "package_names st' = map VStr ss'" and mv': "max_version st' = Some x'" and
    ns': "py_sort (map fst (types_dict st')) = Inr names'" and
    la': "list_all2 (\<lambda>n ms. \<exists>s. map_of (types_dict st') n = Some s \<and> py_sort s = Inr ms) names' mss'" and
    out': "out' = dict_set t' ''Package'' (VDict (final_package p0' ss' x' (map2 type_record names' mss')))"
    by (rule merge_Inr)
  from merge_loop_sem(1) [OF l] merge_loop_sem(1) [OF l'] assms(3)
  have keys: "set (map fst (types_dict st')) = set (map fst (types_dict st))" by simp
  have mem: "td_members (types_dict st') T = td_members (types_dict st) T" for T
    using merge_loop_sem(2) [OF l, of T] merge_loop_sem(2) [OF l', of T] assms(3) by simp
  from ok ok' have "distinct (map fst (types_dict st))" "distinct (map fst (types_dict st'))"
    by (simp_all add: td_ok_def)
  with ns ns' keys have n: "names' = names" by (auto intro: py_sort_unique)
  from la have "length names = length mss" by (rule list_all2_lengthD)
  moreover from la' have "length names' = length mss'" by (rule list_all2_lengthD)
  ultimately have len: "length mss' = length mss" using n by simp
  have "mss' ! i = mss ! i" if "i < length mss" for i
  proof -
    from that la obtain s where s: "map_of (types_dict st) (names ! i) = Some s" "py_sort s = Inr (mss ! i)"
      by (auto simp: list_all2_conv_all_nth)
    from that len la' n obtain s' where s': "map_of (types_dict st') (names ! i) = Some s'"
      "py_sort s' = Inr (mss' ! i)"
      by (auto simp: list_all2_conv_all_nth)
    from mem [of "names ! i"] s(1) s'(1) have "set s' = set s" by (simp add: td_members_def)
    moreover from td_ok_lookup [OF ok s(1)] td_ok_lookup [OF ok' s'(1)] have "distinct s" "distinct s'"
      by simp_all
    ultimately show ?thesis using s(2) s'(2) by (auto intro: py_sort_unique)
  qed
  with len have "mss' = mss" by (simp add: list_eq_iff_nth_eq)
  with n out out' show ?thesis by (simp add: field_types_final)
qed

lemma processed_all_valid: "\<forall>d \<in> set ds. not_valid d = Inr False \<Longrightarrow> processed ds = ds"
  by (simp add: processed_def)

lemma merge_types_valid_order:
  assumes "\<forall>d \<in> set ds. not_valid d = Inr False" "set ds' = set ds"
    "merge ds = Inr out" "merge ds' = Inr out'"
  shows "field ''types'' out' = field ''types'' out"
proof -
  from assms(1,2) have "processed ds = ds" "processed ds' = ds'"
    by (simp_all add: processed_all_valid)
  with assms(2) have "set (processed ds') = set (processed ds)" by simp
  with assms(3,4) show ?thesis by (rule merge_types_by_processed)
qed

subsection \<open>After an invalid manifest\<close>

lemma merge_loop_ignores_rest:
  assumes "not_valid d = Inr True" "\<forall>d' \<in> set ds. not_valid d' = Inr False"
  shows "merge_loop (ds @ d # rest) st = merge_loop ds st"
  using assms(2)
proof (induction ds arbitrary: st)
  case Nil
  with assms(1) show ?case by simp
next
  case (Cons d' ds)
  then have "merge_loop (ds @ d # rest) = merge_loop ds" by (intro ext) simp
  with Cons.prems show ?case by simp
qed

text \<open>
  Whatever follows the first manifest for which the condition of lines 98 to 100 holds has
  no effect on the result.
\<close>

lemma merge_ignores_rest:
  assumes "not_valid d = Inr True" "\<forall>d' \<in> set ds. not_valid d' = Inr False"
  shows "merge (ds @ d # rest) = merge ds"
  by (simp add: merge_def merge_loop_ignores_rest [OF assms])

section \<open>Skipping an invalid manifest\<close>

text \<open>
  C1. The specification asks that an invalid manifest (no root record, no version field
  or no types field) is left out and that the manifests after it are still merged. The
  loop of the source ends at the invalid manifest: of three manifests of which the second
  has no version field, the result has the types and members of the first only, as if the
  first had been merged alone; the type \<open>Layout\<close> and the member \<open>Bar\<close> of the third
  are missing. No error is raised. (In general nothing that follows an invalid manifest
  has an effect, see \<open>merge_ignores_rest\<close>.)
\<close>

theorem merge_stops_at_invalid:
  "not_valid manifest_no_version = Inr True \<and>
   merge [manifest_a, manifest_no_version, manifest_c] = merge [manifest_a] \<and>
   bnd (merge [manifest_a, manifest_no_version, manifest_c]) (field ''types'')
     = Inr (VList [VDict [(''members'', VList [VStr ''Foo'']), (''name'', VStr ''ApexClass'')]]) \<and>
   bnd (merge [manifest_a, manifest_c]) (field ''types'')
     = Inr (VList [VDict [(''members'', VList [VStr ''Bar'', VStr ''Foo'']), (''name'', VStr ''ApexClass'')],
                   VDict [(''members'', VList [VStr ''X'']), (''name'', VStr ''Layout'')]])"
  by code_simp

section \<open>No valid manifest\<close>

text \<open>
  C2 (as amended). When no manifest of the input is valid, that is, the condition of
  lines 98 to 100 holds or cannot be evaluated for each of them, \<open>merge\<close> raises
  \<^verbatim>\<open>TypeError\<close> (from \<^verbatim>\<open>template['Package']\<close> on \<^verbatim>\<open>None\<close>, or from
  \<^verbatim>\<open>'version' in None\<close>) and so produces no document.
\<close>

theorem merge_no_valid_input:
  assumes "\<forall>d \<in> set packages. not_valid d \<noteq> Inr False"
  shows "merge packages = Inl TypeError"
proof (cases packages)
  case Nil
  then show ?thesis by (simp add: merge_def finalize_init)
next
  case (Cons d ds)
  with assms have nv: "not_valid d \<noteq> Inr False" by simp
  show ?thesis
  proof (cases "not_valid d")
    case (Inl e)
    then have "e = TypeError" by (rule not_valid_error)
    with Inl Cons show ?thesis by (simp add: merge_def)
  next
    case (Inr b)
    with nv have "b" by auto
    with Inr Cons show ?thesis by (simp add: merge_def finalize_init)
  qed
qed

theorem merge_no_valid_input_witness:
  "not_valid manifest_empty_root = Inl TypeError \<and> not_valid manifest_no_version = Inr True \<and>
   merge [manifest_empty_root, manifest_no_version] = Inl TypeError \<and>
   merge [manifest_no_version, manifest_empty_root] = Inl TypeError"
proof -
  have e: "not_valid manifest_empty_root = Inl TypeError" by code_simp
  have v: "not_valid manifest_no_version = Inr True" by code_simp
  have g: "\<forall>d \<in> set [manifest_empty_root, manifest_no_version]. not_valid d \<noteq> Inr False"
    by (simp add: e v)
  have h: "\<forall>d \<in> set [manifest_no_version, manifest_empty_root]. not_valid d \<noteq> Inr False"
    by (simp add: e v)
  from e v merge_no_valid_input [OF g] merge_no_valid_input [OF h] show ?thesis by simp
qed

text \<open>
  The claim as stated fails: on the empty input, and on an input whose only manifest has
  no version field, the error is not \<open>NoValidInputError\<close>.
\<close>

theorem merge_no_valid_input_counterexample:
  "merge [] = Inl TypeError \<and> merge [] \<noteq> Inl NoValidInputError \<and>
   not_valid manifest_no_version = Inr True \<and>
   merge [manifest_no_version] = Inl TypeError \<and>
   merge [manifest_no_version] \<noteq> Inl NoValidInputError"
  by code_simp

section \<open>The version of the result\<close>

text \<open>
  C3. The specification asks for the greatest of the versions, printed with one digit
  after the point. The source takes \<^verbatim>\<open>not max_version\<close> for "no version yet", which
  also holds of a maximum of zero: after a manifest of version \<open>0.0\<close>, the maximum is
  replaced by the next version. Of the versions \<open>0.0\<close> and \<open>-1.0\<close> in this order the
  result has \<open>-1.0\<close>, though \<open>-1.0\<close> is the smaller; in the other order it has \<open>0.0\<close>.
  (When every version is above zero the result has a greatest one, see
  \<open>merge_version_positive\<close>.)
\<close>

theorem merge_version_after_zero:
  "not_valid manifest_zero = Inr False \<and> not_valid manifest_minus = Inr False \<and>
   bnd (field ''version'' manifest_zero) py_float = Inr (PyFloat False 0) \<and>
   bnd (field ''version'' manifest_minus) py_float = Inr (PyFloat True 10) \<and>
   py_max (PyFloat False 0) (PyFloat True 10) = PyFloat False 0 \<and>
   format_1f (PyFloat False 0) = ''0.0'' \<and>
   bnd (merge [manifest_zero, manifest_minus]) (field ''version'') = Inr (VStr ''-1.0'') \<and>
   bnd (merge [manifest_minus, manifest_zero]) (field ''version'') = Inr (VStr ''0.0'')"
  by code_simp

section \<open>Every member once\<close>

text \<open>
  C4. Let \<open>m\<close> be among the members of a type record named \<open>T\<close> in a manifest the
  loop works on (as many other manifests as one likes may have it too). Then a document
  that \<open>merge\<close> returns has exactly one record named \<open>T\<close>, and \<open>m\<close> occurs exactly
  once in its list of members. Moreover, after any number of manifests, no set of
  \<open>types_dict\<close> holds a value twice.
\<close>

theorem merge_member_once:
  assumes "merge packages = Inr out"
    and "d \<in> set (processed packages)"
    and "bnd (field ''types'' d) mdt_types_of = Inr recs"
    and "r \<in> set recs"
    and "subscript r ''name'' = Inr T"
    and "bnd (subscript r ''members'') members_of = Inr ms"
    and "m \<in> set ms"
  shows "(\<exists>out_recs ms'.
            field ''types'' out = Inr (VList out_recs) \<and>
            filter (\<lambda>r. subscript r ''name'' = Inr T) out_recs = [type_record T ms'] \<and>
            count_list ms' m = 1) \<and>
         (\<forall>k st s. merge_loop (take k packages) init = Inr st \<longrightarrow>
            s \<in> set (map snd (types_dict st)) \<longrightarrow> distinct s)"
proof -
  have inv: "distinct s"
    if "merge_loop (take k packages) init = Inr st" "s \<in> set (map snd (types_dict st))" for k st s
  proof -
    from merge_loop_ok [OF that(1)] have "td_ok (types_dict st)" by simp
    with that(2) show ?thesis by (auto simp: td_ok_def list_all_iff)
  qed
  from assms(1) obtain st t p0 ss x names mss where
    l: "merge_loop packages init = Inr st" and ok: "td_ok (types_dict st)" and
    tm: "template st = Some t" "map_of t ''Package'' = Some (VDict p0)" and
    pn: "package_names st = map VStr ss" and mv: "max_version st = Some x" and
    ns: "py_sort (map fst (types_dict st)) = Inr names" and
    la: "list_all2 (\<lambda>n ms. \<exists>s. map_of (types_dict st) n = Some s \<and> py_sort s = Inr ms) names mss" and
    out: "out = dict_set t ''Package'' (VDict (final_package p0 ss x (map2 type_record names mss)))"
    by (rule merge_Inr)
  note h = l ok ns la out
  from merge_loop_member [OF h(1) assms(2-6)] assms(7)
  have "m \<in> td_members (types_dict st) T" by blast
  then obtain s where s: "map_of (types_dict st) T = Some s" "m \<in> set s"
    by (auto simp: td_members_def split: option.splits)
  then have "T \<in> set (map fst (types_dict st))" by (auto dest: map_of_SomeD intro: rev_image_eqI)
  with h(3) have T: "T \<in> set names" by (simp add: py_sort_set)
  from h(2,3) have dn: "distinct names" by (auto simp: td_ok_def dest: py_sort_distinct)
  from h(4) have len: "length mss = length names" by (auto dest: list_all2_lengthD)
  from filter_records [OF len dn T] obtain ms' where
    f: "filter (\<lambda>r. subscript r ''name'' = Inr T) (map2 type_record names mss) = [type_record T ms']"
       "(T, ms') \<in> set (zip names mss)" by blast
  from f(2) h(4) s(1) have "py_sort s = Inr ms'"
    by (auto simp: list_all2_iff)
  with td_ok_lookup [OF h(2) s(1)] s(2) have "distinct ms'" "m \<in> set ms'"
    by (auto dest: py_sort_distinct py_sort_set)
  then have "count_list ms' m = 1" by (rule count_list_distinct)
  with f(1) out have "\<exists>out_recs ms'.
            field ''types'' out = Inr (VList out_recs) \<and>
            filter (\<lambda>r. subscript r ''name'' = Inr T) out_recs = [type_record T ms'] \<and>
            count_list ms' m = 1"
    by (auto simp: field_types_final)
  with inv show ?thesis by blast
qed

theorem merge_member_once_witness:
  "\<exists>out. merge [manifest_a, manifest_c] = Inr out \<and>
     manifest_c \<in> set (processed [manifest_a, manifest_c]) \<and>
     field ''types'' out = Inr (VList [type_record (VStr ''ApexClass'') [VStr ''Bar'', VStr ''Foo''],
                                      type_record (VStr ''Layout'') [VStr ''X'']]) \<and>
     count_list [VStr ''Bar'', VStr ''Foo''] (VStr ''Foo'') = 1"
proof -
  let ?r = "VDict [(''members'', VList [VStr ''Bar'', VStr ''Foo'']), (''name'', VStr ''ApexClass'')]"
  let ?recs = "[?r, VDict [(''members'', VStr ''X''), (''name'', VStr ''Layout'')]]"
  obtain out where m: "merge [manifest_a, manifest_c] = Inr out"
    by (cases "merge [manifest_a, manifest_c]") (simp_all, code_simp)
  have p: "manifest_c \<in> set (processed [manifest_a, manifest_c])" by code_simp
  have t: "bnd (field ''types'' manifest_c) mdt_types_of = Inr ?recs" by code_simp
  have r: "?r \<in> set ?recs" by simp
  have n: "subscript ?r ''name'' = Inr (VStr ''ApexClass'')" by code_simp
  have ms: "bnd (subscript ?r ''members'') members_of = Inr [VStr ''Bar'', VStr ''Foo'']" by code_simp
  have mem: "VStr ''Foo'' \<in> set [VStr ''Bar'', VStr ''Foo'']" by simp
  have "bnd (merge [manifest_a, manifest_c]) (field ''types'')
          = Inr (VList [type_record (VStr ''ApexClass'') [VStr ''Bar'', VStr ''Foo''],
                        type_record (VStr ''Layout'') [VStr ''X'']])"
    by code_simp
  with m have f: "field ''types'' out
          = Inr (VList [type_record (VStr ''ApexClass'') [VStr ''Bar'', VStr ''Foo''],
                        type_record (VStr ''Layout'') [VStr ''X'']])" by simp
  from merge_member_once [OF m p t r n ms mem] obtain out_recs ms' where
    h: "field ''types'' out = Inr (VList out_recs)"
       "filter (\<lambda>r. subscript r ''name'' = Inr (VStr ''ApexClass'')) out_recs
          = [type_record (VStr ''ApexClass'') ms']"
       "count_list ms' (VStr ''Foo'') = 1" by blast
  from h(1) f have "out_recs = [type_record (VStr ''ApexClass'') [VStr ''Bar'', VStr ''Foo''],
                                type_record (VStr ''Layout'') [VStr ''X'']]" by simp
  with h(2) have "ms' = [VStr ''Bar'', VStr ''Foo'']"
    by (simp add: type_record_def subscript_def)
  with h(3) m p f show ?thesis by blast
qed

section \<open>The order of the result\<close>

text \<open>
  C5. In every document that \<open>merge\<close> returns, the \<open>types\<close> field is a list of
  records, each with a \<open>members\<close> list and a \<open>name\<close>; the names are in strictly
  ascending order, and so are the members of every record. The order \<open>py_lt\<close> is the
  order of the code points of two \<^verbatim>\<open>str\<close> (an upper-case letter comes before every
  lower-case one); it relates nothing else, so a list in this order with two or more
  elements holds \<^verbatim>\<open>str\<close> only.
\<close>

theorem merge_types_sorted:
  assumes "merge packages = Inr out"
  shows "\<exists>names mss.
           field ''types'' out = Inr (VList (map2 type_record names mss)) \<and>
           length mss = length names \<and> sorted_wrt py_lt names \<and>
           (\<forall>ms \<in> set mss. sorted_wrt py_lt ms)"
proof -
  from assms(1) obtain st t p0 ss x names mss where
    l: "merge_loop packages init = Inr st" and ok: "td_ok (types_dict st)" and
    tm: "template st = Some t" "map_of t ''Package'' = Some (VDict p0)" and
    pn: "package_names st = map VStr ss" and mv: "max_version st = Some x" and
    ns: "py_sort (map fst (types_dict st)) = Inr names" and
    la: "list_all2 (\<lambda>n ms. \<exists>s. map_of (types_dict st) n = Some s \<and> py_sort s = Inr ms) names mss" and
    out: "out = dict_set t ''Package'' (VDict (final_package p0 ss x (map2 type_record names mss)))"
    by (rule merge_Inr)
  note h = ok ns la out
  from h(1) have "distinct (map fst (types_dict st))" by (simp add: td_ok_def)
  with h(2) have s: "sorted_wrt py_lt names" by (rule py_sort_sorted)
  have "sorted_wrt py_lt ms" if "ms \<in> set mss" for ms
  proof -
    from that h(3) obtain n s where "map_of (types_dict st) n = Some s" "py_sort s = Inr ms"
      by (auto simp: list_all2_conv_all_nth in_set_conv_nth)
    with h(1) show ?thesis by (auto dest: td_ok_lookup py_sort_sorted)
  qed
  moreover from h(3) have "length mss = length names" by (auto dest: list_all2_lengthD)
  moreover from h(4) have "field ''types'' out = Inr (VList (map2 type_record names mss))"
    by (simp add: field_types_final)
  ultimately show ?thesis using s by blast
qed

theorem merge_types_sorted_witness:
  "\<exists>out. merge [manifest_c, manifest_a] = Inr out \<and>
     field ''types'' out = Inr (VList [type_record (VStr ''ApexClass'') [VStr ''Bar'', VStr ''Foo''],
                                      type_record (VStr ''Layout'') [VStr ''X'']]) \<and>
     sorted_wrt py_lt [VStr ''ApexClass'', VStr ''Layout''] \<and>
     sorted_wrt py_lt [VStr ''Bar'', VStr ''Foo''] \<and> sorted_wrt py_lt [VStr ''X'']"
proof -
  obtain out where m: "merge [manifest_c, manifest_a] = Inr out"
    by (cases "merge [manifest_c, manifest_a]") (simp_all, code_simp)
  have "bnd (merge [manifest_c, manifest_a]) (field ''types'')
          = Inr (VList [type_record (VStr ''ApexClass'') [VStr ''Bar'', VStr ''Foo''],
                        type_record (VStr ''Layout'') [VStr ''X'']])"
    by code_simp
  with m have f: "field ''types'' out
          = Inr (VList [type_record (VStr ''ApexClass'') [VStr ''Bar'', VStr ''Foo''],
                        type_record (VStr ''Layout'') [VStr ''X'']])" by simp
  from merge_types_sorted [OF m] obtain names mss where
    h: "field ''types'' out = Inr (VList (map2 type_record names mss))"
       "length mss = length names" "sorted_wrt py_lt names" "\<forall>ms \<in> set mss. sorted_wrt py_lt ms"
    by blast
  from h(1) f have e: "map2 type_record names mss = [type_record (VStr ''ApexClass'') [VStr ''Bar'', VStr ''Foo''],
                        type_record (VStr ''Layout'') [VStr ''X'']]" by simp
  from e h(2) have "names = [VStr ''ApexClass'', VStr ''Layout''] \<and> mss = [[VStr ''Bar'', VStr ''Foo''], [VStr ''X'']]"
    by (cases names; cases mss; cases "tl names"; cases "tl mss") (auto simp: type_record_def)
  with h(3,4) m f show ?thesis by auto
qed

section \<open>A result merged again\<close>

text \<open>
  C6 (as amended). A document that \<open>merge\<close> returns, merged again as the only
  manifest of an input, gives a document: the same one, except that its description
  names \<open>Merged_Package\<close> as the only manifest merged. Name, version, types and every
  other field are as before.
\<close>

theorem merge_again:
  assumes "merge packages = Inr out"
  shows "\<exists>out'. merge [out] = Inr out' \<and>
           with_description (header @ ''Merged_Package'') out = Inr out' \<and>
           field ''fullName'' out' = field ''fullName'' out \<and>
           field ''version'' out' = field ''version'' out \<and>
           field ''types'' out' = field ''types'' out \<and>
           field ''description'' out' = Inr (VStr (header @ ''Merged_Package''))"
proof -
  from assms obtain t P where
    o: "out = dict_set t ''Package'' (VDict P)" and
    m: "merge [out] = Inr (dict_set out ''Package''
          (VDict (dict_set P ''description'' (VStr (header @ ''Merged_Package'')))))"
    by (rule merge_result_again)
  let ?out' = "dict_set out ''Package''
          (VDict (dict_set P ''description'' (VStr (header @ ''Merged_Package''))))"
  have w: "with_description (header @ ''Merged_Package'') out = Inr ?out'"
    by (simp add: with_description_def o subscript_def map_of_dict_set)
  have f: "field k ?out' = (if k = ''description'' then Inr (VStr (header @ ''Merged_Package''))
                            else field k out)" for k
    by (simp add: field_dict_set o subscript_def map_of_dict_set)
  from m w show ?thesis by (simp add: f)
qed

theorem merge_again_witness:
  "merge [manifest_a] = Inr merged_a \<and>
   merge [merged_a] = with_description (header @ ''Merged_Package'') merged_a \<and>
   bnd (merge [merged_a]) (field ''types'') = field ''types'' merged_a \<and>
   bnd (merge [merged_a]) (field ''version'') = Inr (VStr ''58.0'')"
proof -
  have a: "merge [manifest_a] = Inr merged_a" by code_simp
  have v: "field ''version'' merged_a = Inr (VStr ''58.0'')" by code_simp
  from merge_again [OF a] a v show ?thesis by auto
qed

text \<open>
  The claim as stated fails: the result of merging the manifest named \<open>A\<close> has a
  description that names \<open>A\<close>; merged again, the description names \<open>Merged_Package\<close>.
\<close>

theorem merge_again_counterexample:
  "merge [manifest_a] = Inr merged_a \<and> merge [merged_a] \<noteq> Inr merged_a \<and>
   field ''description'' merged_a = Inr (VStr (header @ ''A'')) \<and>
   bnd (merge [merged_a]) (field ''description'') = Inr (VStr (header @ ''Merged_Package''))"
  by code_simp

section \<open>The order of the input\<close>

text \<open>
  C7. The specification asks that the types of the result do not depend on the order
  of the manifests. Since the loop ends at the first invalid manifest (see C1), they do:
  with the manifest that has no version field in second place the result has the types of
  the first manifest only, with it in third place the types of the first and the third.
  (The types depend only on which manifests the loop works on, and so not on the order of
  an input whose manifests are all valid, see \<open>merge_types_valid_order\<close>.)
\<close>

theorem merge_types_depend_on_order:
  "bnd (merge [manifest_a, manifest_no_version, manifest_c]) (field ''types'')
     = Inr (VList [VDict [(''members'', VList [VStr ''Foo'']), (''name'', VStr ''ApexClass'')]]) \<and>
   bnd (merge [manifest_a, manifest_c, manifest_no_version]) (field ''types'')
     = Inr (VList [VDict [(''members'', VList [VStr ''Bar'', VStr ''Foo'']), (''name'', VStr ''ApexClass'')],
                   VDict [(''members'', VList [VStr ''X'']), (''name'', VStr ''Layout'')]])"
  by code_simp

section \<open>Single values and sequences\<close>

text \<open>
  C8. The loop iterates a single type record as the one-element sequence that holds it,
  and a bare member string as the one-element sequence that holds it. Replacing any of the
  manifests of an input, each on its own, by its normal form (types in sequence form, and
  the members of every type record in sequence form) changes nothing in what \<open>merge\<close>
  returns or raises.
\<close>

theorem merge_normalized:
  assumes "list_all2 (\<lambda>d' d. d' = d \<or> d' = normalize_doc d) packages' packages"
  shows "mdt_types_of (normalizeTypes t) = mdt_types_of t \<and>
         members_of (normalizeMembers m) = members_of m \<and>
         merge packages' = merge packages"
proof -
  have "agg_rel init init" by (simp add: agg_rel_def init_def)
  from merge_loop_agg_rel [OF assms this]
  have "rel_sum (=) agg_rel (merge_loop packages' init) (merge_loop packages init)" .
  then have "merge packages' = merge packages"
    by (cases "merge_loop packages' init"; cases "merge_loop packages init")
      (simp_all add: merge_def finalize_agg_rel)
  then show ?thesis by (simp add: mdt_types_of_normalizeTypes)
qed

theorem merge_normalized_witness:
  "normalize_doc manifest_a =
     [(''Package'', VDict
        [(''@xmlns'', VStr ''http://soap.sforce.com/2006/04/metadata''),
         (''fullName'', VStr ''A''),
         (''types'', VList [VDict [(''members'', VList [VStr ''Foo'']), (''name'', VStr ''ApexClass'')]]),
         (''version'', VStr ''58.0'')])] \<and>
   mdt_types_of (normalizeTypes (VDict [(''members'', VStr ''Foo''), (''name'', VStr ''ApexClass'')]))
     = Inr [VDict [(''members'', VStr ''Foo''), (''name'', VStr ''ApexClass'')]] \<and>
   members_of (normalizeMembers (VStr ''Foo'')) = Inr [VStr ''Foo''] \<and>
   merge [normalize_doc manifest_a, manifest_c] = merge [manifest_a, manifest_c] \<and>
   merge [manifest_a, normalize_doc manifest_c] = merge [manifest_a, manifest_c]"
proof -
  have n: "normalize_doc manifest_a =
     [(''Package'', VDict
        [(''@xmlns'', VStr ''http://soap.sforce.com/2006/04/metadata''),
         (''fullName'', VStr ''A''),
         (''types'', VList [VDict [(''members'', VList [VStr ''Foo'']), (''name'', VStr ''ApexClass'')]]),
         (''version'', VStr ''58.0'')])]"
    by code_simp
  have t: "mdt_types_of (VDict [(''members'', VStr ''Foo''), (''name'', VStr ''ApexClass'')])
     = Inr [VDict [(''members'', VStr ''Foo''), (''name'', VStr ''ApexClass'')]]"
    by (simp add: mdt_types_of_def)
  have m: "members_of (VStr ''Foo'') = Inr [VStr ''Foo'']"
    by (simp add: members_of_def)
  have a: "list_all2 (\<lambda>d' d. d' = d \<or> d' = normalize_doc d)
             [normalize_doc manifest_a, manifest_c] [manifest_a, manifest_c]" by simp
  have c: "list_all2 (\<lambda>d' d. d' = d \<or> d' = normalize_doc d)
             [manifest_a, normalize_doc manifest_c] [manifest_a, manifest_c]" by simp
  from merge_normalized [OF a, of "VDict [(''members'', VStr ''Foo''), (''name'', VStr ''ApexClass'')]" "VStr ''Foo''"]
    merge_normalized [OF c] n t m
  show ?thesis by simp
qed

section \<open>Name and description of the result\<close>

text \<open>
  C9. When every manifest of the input is valid and \<open>merge\<close> returns a document, its
  \<open>fullName\<close> field (the name of the manifest) is \<open>Merged_Package\<close>, and its
  \<open>description\<close> field is the fixed first line followed by the names of the input
  manifests, taken in input order, sorted once by code point and joined by newlines.
\<close>

theorem merge_name_description:
  assumes "\<forall>d \<in> set packages. not_valid d = Inr False"
    and "merge packages = Inr out"
  shows "\<exists>names. map (field ''fullName'') packages = map (\<lambda>n. Inr (VStr n)) names \<and>
           field ''fullName'' out = Inr (VStr ''Merged_Package'') \<and>
           field ''description'' out = Inr (VStr (header @ join [CHR 0x0A] (sort names)))"
proof -
  from assms(2) obtain st where l: "merge_loop packages init = Inr st" and f: "finalize st = Inr out"
    by (auto simp: merge_def bnd_eq_Inr)
  from merge_loop_names [OF assms(1) l] obtain ns where
    ns: "map (field ''fullName'') packages = map Inr ns" "package_names st = ns"
    by (auto simp: init_def)
  from finalize_Inr [OF f] obtain t p0 ss x recs where
    o: "package_names st = map VStr ss" "out = dict_set t ''Package'' (VDict (final_package p0 ss x recs))"
    by blast
  from ns o have "map (field ''fullName'') packages = map (\<lambda>n. Inr (VStr n)) ss" by auto
  moreover from o have "field ''fullName'' out = Inr (VStr ''Merged_Package'')"
    by (simp add: field_dict_set final_package_def subscript_def map_of_dict_set)
  moreover from o have "field ''description'' out = Inr (VStr (header @ join [CHR 0x0A] (sort ss)))"
    by (simp add: field_dict_set final_package_def subscript_def map_of_dict_set)
  ultimately show ?thesis by blast
qed

theorem merge_name_description_witness:
  "not_valid manifest_c = Inr False \<and> not_valid manifest_a = Inr False \<and>
   (\<exists>out. merge [manifest_c, manifest_a] = Inr out \<and>
      field ''fullName'' out = Inr (VStr ''Merged_Package'') \<and>
      field ''description'' out = Inr (VStr (header @ ''A'' @ [CHR 0x0A] @ ''C'')))"
proof -
  have a: "not_valid manifest_a = Inr False" and c: "not_valid manifest_c = Inr False" by code_simp+
  have v: "\<forall>d \<in> set [manifest_c, manifest_a]. not_valid d = Inr False" by (simp add: a c)
  obtain out where m: "merge [manifest_c, manifest_a] = Inr out"
    by (cases "merge [manifest_c, manifest_a]") (simp_all, code_simp)
  from merge_name_description [OF v m] obtain names where
    n: "map (field ''fullName'') [manifest_c, manifest_a] = map (\<lambda>n. Inr (VStr n)) names"
       "field ''fullName'' out = Inr (VStr ''Merged_Package'')"
       "field ''description'' out = Inr (VStr (header @ join [CHR 0x0A] (sort names)))" by blast
  have "field ''fullName'' manifest_c = Inr (VStr ''C'')" "field ''fullName'' manifest_a = Inr (VStr ''A'')"
    by code_simp+
  with n(1) have "names = [''C'', ''A'']" by (cases names; cases "tl names"; auto)
  moreover have "sort [''C'', ''A''] = [''A'', ''C'']" by code_simp
  ultimately have "field ''description'' out = Inr (VStr (header @ ''A'' @ [CHR 0x0A] @ ''C''))"
    using n(3) by simp
  with a c m n(2) show ?thesis by blast
qed

section \<open>A manifest without a name\<close>

text \<open>
  C10. A manifest with a root record, a version field and a types field passes the check
  of lines 98 to 100 whether or not it has a \<open>fullName\<close> field; line 110 reads that
  field without a test. For a manifest without it, \<open>merge\<close> raises \<^verbatim>\<open>KeyError\<close>:
  the manifest is neither skipped nor merged.
\<close>

theorem merge_missing_name:
  "not_valid manifest_no_name = Inr False \<and>
   field ''fullName'' manifest_no_name = Inl KeyError \<and>
   merge [manifest_no_name] = Inl KeyError \<and>
   merge [manifest_a, manifest_no_name] = Inl KeyError"
  by code_simp

end
